theory Spec2Isabelle
  imports Complex_Main "HOL-Library.Log_Nat" "HOL-Library.Word" "HOL-Library.Monad_Syntax"
begin

section \<open>Numbers\<close>

text \<open>
  Every number of \<^verbatim>\<open>src/app/page.tsx\<close> is an IEEE 754 binary64 value. A finite one is
  modelled by the rational it denotes, and every arithmetic operation rounds its exact
  result to the nearest binary64 value, ties to the even significand (\<open>fl\<close>). The
  exponent range is not bounded here: the values below are 0 or lie between \<open>2^-60\<close> and
  \<open>2^40\<close> in magnitude, far from the subnormal and overflow ranges. Negative zero is
  identified with zero; the two differ only as divisors, and a division by zero is a
  separate case of the model (\<open>fdiv_opt\<close>).
\<close>

definition rne :: "rat \<Rightarrow> int" where
  \<comment> \<open>round to the nearest integer, ties to even\<close>
  "rne x = (let n = \<lfloor>x\<rfloor>; d = x - of_int n
            in if d < 1/2 then n else if 1/2 < d then n + 1 else if even n then n else n + 1)"

definition expo :: "rat \<Rightarrow> int" where
  \<comment> \<open>the binary exponent \<open>e\<close> of a positive \<open>x\<close>: \<open>2^e \<le> x < 2^(e+1)\<close>\<close>
  "expo x = (if 1 \<le> x then int (floorlog 2 (nat \<lfloor>x\<rfloor>)) - 1
             else let j = int (floorlog 2 (nat \<lfloor>1 / x\<rfloor>)) - 1
                  in if x = 1 / 2 powi j then - j else - j - 1)"

definition fl :: "rat \<Rightarrow> rat" where
  \<comment> \<open>rounding to 53 significant bits\<close>
  "fl x = (if x = 0 then 0
           else let u = 2 powi (expo \<bar>x\<bar> - 52) in of_int (rne (x / u)) * u)"

definition lit :: "rat \<Rightarrow> rat" where
  \<comment> \<open>a decimal literal of the source denotes the nearest binary64 value\<close>
  "lit q = fl q"

definition fadd :: "rat \<Rightarrow> rat \<Rightarrow> rat" where
  "fadd x y = fl (x + y)"

definition fsub :: "rat \<Rightarrow> rat \<Rightarrow> rat" where
  "fsub x y = fl (x - y)"

definition fmul :: "rat \<Rightarrow> rat \<Rightarrow> rat" where
  "fmul x y = fl (x * y)"

definition fdiv :: "rat \<Rightarrow> rat \<Rightarrow> rat" where
  \<comment> \<open>\<^verbatim>\<open>x / y\<close> where \<open>y\<close> is a non-zero literal of the source\<close>
  "fdiv x y = fl (x / y)"

definition fdiv_opt :: "rat \<Rightarrow> rat \<Rightarrow> rat option" where
  \<comment> \<open>\<^verbatim>\<open>x / y\<close> with a computed divisor: \<open>None\<close> where JavaScript yields
      \<^verbatim>\<open>NaN\<close> or an infinity, which the model does not follow further\<close>
  "fdiv_opt x y = (if y = 0 then None else Some (fdiv x y))"

definition trunc :: "rat \<Rightarrow> int" where
  "trunc x = (if 0 \<le> x then \<lfloor>x\<rfloor> else \<lceil>x\<rceil>)"

definition fmod :: "rat \<Rightarrow> rat \<Rightarrow> rat" where
  \<comment> \<open>\<^verbatim>\<open>x % y\<close> for \<open>y \<noteq> 0\<close>: the remainder has the sign of \<open>x\<close> and is exact\<close>
  "fmod x y = x - y * of_int (trunc (x / y))"

definition Math_round :: "rat \<Rightarrow> int" where
  \<comment> \<open>\<^verbatim>\<open>Math.round\<close>: the nearest integer, a tie goes up\<close>
  "Math_round x = \<lfloor>x + 1/2\<rfloor>"

definition Math_max3 :: "rat \<Rightarrow> rat \<Rightarrow> rat \<Rightarrow> rat" where
  "Math_max3 x y z = max (max x y) z"

definition Math_min3 :: "rat \<Rightarrow> rat \<Rightarrow> rat \<Rightarrow> rat" where
  "Math_min3 x y z = min (min x y) z"

definition ToInt32 :: "rat \<Rightarrow> int" where
  \<comment> \<open>the conversion of a number to a Web IDL \<^verbatim>\<open>long\<close>\<close>
  "ToInt32 x = (trunc x + 2 ^ 31) mod 2 ^ 32 - 2 ^ 31"

section \<open>Strings\<close>

definition digit_char :: "nat \<Rightarrow> char" where
  "digit_char n = ''0123456789abcdefghijklmnopqrstuvwxyz'' ! n"

fun digits :: "nat \<Rightarrow> nat \<Rightarrow> string" where
  "digits base n =
     (if base < 2 \<or> n < base then [digit_char n]
      else digits base (n div base) @ [digit_char (n mod base)])"

definition toString :: "nat \<Rightarrow> int \<Rightarrow> string" where
  \<comment> \<open>\<^verbatim>\<open>Number.prototype.toString(radix)\<close> of an integer\<close>
  "toString radix c =
     (if c < 0 then ''-'' @ digits radix (nat (- c)) else digits radix (nat c))"

definition padStart :: "nat \<Rightarrow> char \<Rightarrow> string \<Rightarrow> string" where
  "padStart n c s = replicate (n - length s) c @ s"

definition slice_str :: "nat \<Rightarrow> nat \<Rightarrow> string \<Rightarrow> string" where
  \<comment> \<open>\<^verbatim>\<open>s.slice(i, j)\<close> for indices \<open>0 \<le> i \<le> j\<close>\<close>
  "slice_str i j s = take (j - i) (drop i s)"

definition hex_value :: "char \<Rightarrow> nat option" where
  "hex_value c =
     (let n = (of_char c :: nat)
      in if 48 \<le> n \<and> n \<le> 57 then Some (n - 48)
         else if 97 \<le> n \<and> n \<le> 102 then Some (n - 87)
         else if 65 \<le> n \<and> n \<le> 70 then Some (n - 55)
         else None)"

definition is_white_space :: "char \<Rightarrow> bool" where
  "is_white_space c \<longleftrightarrow> (of_char c :: nat) \<in> {9, 10, 11, 12, 13, 32}"

definition parseInt16 :: "string \<Rightarrow> int option" where
  \<comment> \<open>\<^verbatim>\<open>parseInt(s, 16)\<close>: white space, a sign and a \<^verbatim>\<open>0x\<close> prefix are skipped, the
      longest run of hexadecimal digits is read, and \<open>None\<close> stands for \<^verbatim>\<open>NaN\<close>. The value
      is exact below \<open>2^53\<close>; the callers pass two characters.\<close>
  "parseInt16 s =
     (let s1 = dropWhile is_white_space s;
          (sign, s2) = (case s1 of
                          c # t \<Rightarrow> if c = CHR ''-'' then (- 1, t)
                                   else if c = CHR ''+'' then (1, t) else (1, s1)
                        | [] \<Rightarrow> (1, s1));
          s3 = (case s2 of
                  c # d # t \<Rightarrow> if c = CHR ''0'' \<and> (d = CHR ''x'' \<or> d = CHR ''X'') then t else s2
                | _ \<Rightarrow> s2);
          ds = List.map_filter hex_value (takeWhile (\<lambda>c. hex_value c \<noteq> None) s3)
      in if ds = [] then None
         else Some (sign * int (foldl (\<lambda>a d. 16 * a + d) 0 ds)))"

definition toFixed2 :: "rat \<Rightarrow> string" where
  \<comment> \<open>\<^verbatim>\<open>x.toFixed(2)\<close> for \<open>|x| < 10^21\<close>: the nearest multiple of \<open>1/100\<close>, a tie
      goes to the larger magnitude\<close>
  "toFixed2 x =
     (let n = nat \<lfloor>\<bar>x\<bar> * 100 + 1/2\<rfloor>
      in (if x < 0 then ''-'' else '''') @ digits 10 (n div 100) @ ''.''
         @ padStart 2 CHR ''0'' (digits 10 (n mod 100)))"

section \<open>The converter\<close>

record ColorData =
  hex :: string
  rgb :: "int \<times> int \<times> int"
  hsl :: "int \<times> int \<times> int"
  cmyk :: string

definition toHex :: "int \<Rightarrow> string" where
  \<comment> \<open>\<^verbatim>\<open>const toHex = (c: number) => c.toString(16).padStart(2, '0');\<close>\<close>
  "toHex c = padStart 2 CHR ''0'' (toString 16 c)"

definition hex_of :: "int \<Rightarrow> int \<Rightarrow> int \<Rightarrow> string" where
  \<comment> \<open>\<^verbatim>\<open>const hex = `#${toHex(r)}${toHex(g)}${toHex(b)}`;\<close>\<close>
  "hex_of r g b = ''#'' @ toHex r @ toHex g @ toHex b"

definition hsl_of :: "rat \<Rightarrow> rat \<Rightarrow> rat \<Rightarrow> (rat \<times> rat \<times> rat) option" where
  \<comment> \<open>lines 86 to 96: \<open>h\<close>, \<open>s\<close> and \<open>l\<close> before scaling\<close>
  "hsl_of r' g' b' =
     (let mx = Math_max3 r' g' b'; mn = Math_min3 r' g' b';
          l = fdiv (fadd mx mn) 2
      in if mx \<noteq> mn then do {
           let d = fsub mx mn;
           s \<leftarrow> (if l > lit (1/2) then fdiv_opt d (fsub (fsub 2 mx) mn)
                 else fdiv_opt d (fadd mx mn));
           h \<leftarrow> (if mx = r' then
                   map_option (\<lambda>q. fadd q (if g' < b' then 6 else 0)) (fdiv_opt (fsub g' b') d)
                 else if mx = g' then
                   map_option (\<lambda>q. fadd q 2) (fdiv_opt (fsub b' r') d)
                 else
                   map_option (\<lambda>q. fadd q 4) (fdiv_opt (fsub r' g') d));
           Some (fdiv h 6, s, l)
         }
         else Some (0, 0, l))"

definition or_zero :: "rat \<Rightarrow> rat \<Rightarrow> rat option" where
  \<comment> \<open>\<^verbatim>\<open>x / y || 0\<close>: \<^verbatim>\<open>0 / 0\<close> is \<^verbatim>\<open>NaN\<close>, which is falsy and replaced by 0; any
      other division by zero is an infinity, which is truthy and stays\<close>
  "or_zero x y = (if y = 0 then (if x = 0 then Some 0 else None) else Some (fdiv x y))"

definition cmyk_of :: "rat \<Rightarrow> rat \<Rightarrow> rat \<Rightarrow> (rat \<times> rat \<times> rat \<times> rat) option" where
  \<comment> \<open>lines 98 to 101: \<open>c\<close>, \<open>m\<close>, \<open>y\<close> and \<open>k\<close> before scaling\<close>
  "cmyk_of r' g' b' =
     (let k = fsub 1 (Math_max3 r' g' b') in do {
        c \<leftarrow> or_zero (fsub (fsub 1 r') k) (fsub 1 k);
        m \<leftarrow> or_zero (fsub (fsub 1 g') k) (fsub 1 k);
        y \<leftarrow> or_zero (fsub (fsub 1 b') k) (fsub 1 k);
        Some (c, m, y, k)
      })"

definition percent :: "rat \<Rightarrow> int" where
  \<comment> \<open>\<^verbatim>\<open>Math.round(x * 100)\<close>\<close>
  "percent x = Math_round (fmul x 100)"

definition calculateColorDetails :: "int \<Rightarrow> int \<Rightarrow> int \<Rightarrow> ColorData option" where
  "calculateColorDetails r g b =
     (let r' = fdiv (of_int r) 255; g' = fdiv (of_int g) 255; b' = fdiv (of_int b) 255
      in do {
        (h, s, l) \<leftarrow> hsl_of r' g' b';
        (c, m, y, k) \<leftarrow> cmyk_of r' g' b';
        Some \<lparr> hex = hex_of r g b,
               rgb = (r, g, b),
               hsl = (Math_round (fmul h 360), percent s, percent l),
               cmyk = toString 10 (percent c) @ '', '' @ toString 10 (percent m) @ '', ''
                      @ toString 10 (percent y) @ '', '' @ toString 10 (percent k) \<rparr>
      })"

text \<open>
  The CMYK formulas in the words of the specification: \<open>K = 1 - max(r, g, b) / 255\<close>, and
  \<open>C\<close>, \<open>M\<close>, \<open>Y\<close> are \<open>(1 - channel - K) / (1 - K)\<close> with 0 in its place when \<open>K = 1\<close>,
  the channel being normalised to the unit interval.
\<close>

definition spec_K :: "int \<Rightarrow> int \<Rightarrow> int \<Rightarrow> rat" where
  "spec_K r g b = fsub 1 (fdiv (of_int (max r (max g b))) 255)"

definition spec_CMY :: "int \<Rightarrow> rat \<Rightarrow> rat" where
  "spec_CMY c K =
     (if K = 1 then 0 else fdiv (fsub (fsub 1 (fdiv (of_int c) 255)) K) (fsub 1 K))"

section \<open>Manual adjustment\<close>

definition hsl_f :: "rat \<Rightarrow> rat \<Rightarrow> rat \<Rightarrow> rat \<Rightarrow> rat" where
  \<comment> \<open>\<^verbatim>\<open>const f = (n, k = (n + h / 30) % 12) => l' - a * Math.max(Math.min(k - 3, 9 - k, 1), -1);\<close>\<close>
  "hsl_f h l' a n =
     (let k = fmod (fadd n (fdiv h 30)) 12
      in fsub l' (fmul a (max (Math_min3 (fsub k 3) (fsub 9 k) 1) (- 1))))"

definition hslToRgb :: "int \<Rightarrow> int \<Rightarrow> int \<Rightarrow> int \<times> int \<times> int" where
  \<comment> \<open>lines 113 to 119 of \<^verbatim>\<open>updateFromHSL\<close>\<close>
  "hslToRgb h s l =
     (let s' = fdiv (of_int s) 100;
          l' = fdiv (of_int l) 100;
          a = fmul s' (min l' (fsub 1 l'))
      in (Math_round (fmul (hsl_f (of_int h) l' a 0) 255),
          Math_round (fmul (hsl_f (of_int h) l' a 8) 255),
          Math_round (fmul (hsl_f (of_int h) l' a 4) 255)))"

definition tri :: "rat \<Rightarrow> rat" where
  \<comment> \<open>the clamped wave \<^verbatim>\<open>Math.max(Math.min(k - 3, 9 - k, 1), -1)\<close> of \<open>hsl_f\<close>\<close>
  "tri k = max (Math_min3 (fsub k 3) (fsub 9 k) 1) (- 1)"

section \<open>Contrast\<close>

text \<open>
  \<^verbatim>\<open>Math.pow\<close> is implementation-approximated in ECMAScript, so the contrast computation
  takes it as a parameter.
\<close>

definition getL :: "(rat \<Rightarrow> rat \<Rightarrow> rat) \<Rightarrow> int \<Rightarrow> rat" where
  "getL Math_pow c =
     (let s = fdiv (of_int c) 255
      in if s \<le> lit (3928/100000) then fdiv s (lit (1292/100))
         else Math_pow (fdiv (fadd s (lit (55/1000))) (lit (1055/1000))) (lit (24/10)))"

record Contrast =
  ratio :: string
  onWhite :: string
  isDark :: bool

definition luminance :: "(rat \<Rightarrow> rat \<Rightarrow> rat) \<Rightarrow> int \<times> int \<times> int \<Rightarrow> rat" where
  \<comment> \<open>\<^verbatim>\<open>const L = 0.2126 * getL(r) + 0.7152 * getL(g) + 0.0722 * getL(b);\<close>\<close>
  "luminance Math_pow c =
     (case c of (r, g, b) \<Rightarrow>
        fadd (fadd (fmul (lit (2126/10000)) (getL Math_pow r))
                   (fmul (lit (7152/10000)) (getL Math_pow g)))
             (fmul (lit (722/10000)) (getL Math_pow b)))"

definition contrast :: "(rat \<Rightarrow> rat \<Rightarrow> rat) \<Rightarrow> ColorData \<Rightarrow> Contrast option" where
  "contrast Math_pow cd =
     (let L = luminance Math_pow (rgb cd) in do {
        w \<leftarrow> fdiv_opt (lit (105/100)) (fadd L (lit (5/100)));
        Some \<lparr> ratio = toFixed2 (fdiv (fadd L (lit (5/100))) (lit (5/100))),
               onWhite = toFixed2 w,
               isDark = (L < lit (1/2)) \<rparr>
      })"

section \<open>Selection history\<close>

text \<open>
  \<^verbatim>\<open>if (!history.includes(result.hex)) setHistory(prev => [result.hex, ...prev].slice(0, 12));\<close>
  The handler closes over the \<open>history\<close> of the render in which it was created; events
  are handled one at a time, each followed by a render, so that \<open>history\<close> and \<open>prev\<close>
  are the same list.
\<close>

definition record_hex :: "string list \<Rightarrow> string \<Rightarrow> string list" where
  "record_hex hist hx = (if hx \<notin> set hist then take 12 (hx # hist) else hist)"

section \<open>Palette extraction\<close>

text \<open>
  A pixel is the four bytes R, G, B, A of a \<^verbatim>\<open>Uint8ClampedArray\<close>; a bitmap gives the
  pixel at column \<open>x\<close> and row \<open>y\<close>. \<^verbatim>\<open>getImageData(sx, sy, 1, 1)\<close> converts its
  arguments to \<^verbatim>\<open>long\<close> and yields transparent black outside the bitmap.
\<close>

type_synonym pixel = "8 word \<times> 8 word \<times> 8 word \<times> 8 word"

type_synonym bitmap = "nat \<Rightarrow> nat \<Rightarrow> pixel"

definition getImageData :: "bitmap \<Rightarrow> nat \<Rightarrow> nat \<Rightarrow> rat \<Rightarrow> rat \<Rightarrow> pixel" where
  "getImageData bmp w h sx sy =
     (let x = ToInt32 sx; y = ToInt32 sy
      in if 0 \<le> x \<and> x < int w \<and> 0 \<le> y \<and> y < int h then bmp (nat x) (nat y)
         else (0, 0, 0, 0))"

definition points :: "(rat \<times> rat) list" where
  \<comment> \<open>\<^verbatim>\<open>const points = [[0.2, 0.2], [0.5, 0.2], [0.8, 0.5], [0.3, 0.8], [0.7, 0.7]];\<close>\<close>
  "points = [(lit (2/10), lit (2/10)), (lit (5/10), lit (2/10)), (lit (8/10), lit (5/10)),
             (lit (3/10), lit (8/10)), (lit (7/10), lit (7/10))]"

definition pixel_hex :: "pixel \<Rightarrow> string option" where
  \<comment> \<open>\<^verbatim>\<open>calculateColorDetails(d[0], d[1], d[2]).hex\<close>\<close>
  "pixel_hex d =
     (case d of (d0, d1, d2, d3) \<Rightarrow>
        map_option hex (calculateColorDetails (uint d0) (uint d1) (uint d2)))"

definition extractPalette :: "bitmap \<Rightarrow> nat \<Rightarrow> nat \<Rightarrow> string list option" where
  \<comment> \<open>the palette computed from a canvas of width \<open>w\<close> and height \<open>h\<close> holding the image\<close>
  "extractPalette bmp w h =
     those (map (\<lambda>(px, py).
               pixel_hex (getImageData bmp w h (fmul (of_nat w) px) (fmul (of_nat h) py)))
             points)"

section \<open>The session\<close>

text \<open>
  The state of the component: the image, the current colour, the palette and the
  selection history (\<^verbatim>\<open>copied\<close> and \<^verbatim>\<open>cursorPos\<close> do not reach any of them). An event
  is one call of a handler; the tool (image, swatches, sliders, reset buttons) is rendered
  only while \<^verbatim>\<open>image\<close> is truthy, so that an event of the tool leaves the state as it is
  otherwise. A step is \<open>None\<close> where a number outside the model arises.
\<close>

record session =
  image_src :: "string option"
  colorData :: ColorData
  palette :: "string list"
  history :: "string list"

datatype event =
    SetImage string
  | KeyDown string
  | RestartProject
  | ResetProject
  | ImgOnLoad bitmap nat nat
  | ImgOnClick pixel
  | PaletteButton nat
  | HistoryButton nat
  | HueInput int
  | SaturationInput int
  | LightnessInput int

definition initial_colorData :: ColorData where
  "initial_colorData =
     \<lparr> hex = ''#6366f1'', rgb = (99, 102, 241), hsl = (239, 84, 67), cmyk = ''60, 58, 0, 5'' \<rparr>"

definition initial :: session where
  "initial = \<lparr> image_src = None, colorData = initial_colorData, palette = [], history = [] \<rparr>"

definition truthy :: "string option \<Rightarrow> bool" where
  \<comment> \<open>\<^verbatim>\<open>null\<close> and the empty string are falsy\<close>
  "truthy v = (case v of None \<Rightarrow> False | Some u \<Rightarrow> u \<noteq> [])"

definition handleKeyDown :: "string \<Rightarrow> session \<Rightarrow> session" where
  "handleKeyDown key st =
     (if key = ''Escape'' \<and> truthy (image_src st) then st\<lparr>image_src := None\<rparr> else st)"

definition pickColor :: "pixel \<Rightarrow> session \<Rightarrow> session option" where
  \<comment> \<open>\<open>d\<close> is the pixel that \<^verbatim>\<open>ctx.getImageData(x, y, 1, 1).data\<close> reads from the canvas\<close>
  "pickColor d st =
     (case d of (d0, d1, d2, d3) \<Rightarrow> do {
        result \<leftarrow> calculateColorDetails (uint d0) (uint d1) (uint d2);
        Some (st\<lparr>colorData := result, history := record_hex (history st) (hex result)\<rparr>)
      })"

definition selectSwatch :: "string \<Rightarrow> session \<Rightarrow> session option" where
  \<comment> \<open>the click handler of a palette or history button\<close>
  "selectSwatch hx st =
     (case (parseInt16 (slice_str 1 3 hx), parseInt16 (slice_str 3 5 hx),
           parseInt16 (slice_str 5 7 hx)) of
        (Some r, Some g, Some b) \<Rightarrow>
          map_option (\<lambda>cd. st\<lparr>colorData := cd\<rparr>) (calculateColorDetails r g b)
      | _ \<Rightarrow> None)"

definition updateFromHSL :: "int \<Rightarrow> int \<Rightarrow> int \<Rightarrow> session \<Rightarrow> session option" where
  "updateFromHSL h s l st =
     (case hslToRgb h s l of (r, g, b) \<Rightarrow>
        map_option (\<lambda>cd. st\<lparr>colorData := cd\<rparr>) (calculateColorDetails r g b))"

fun handle :: "session \<Rightarrow> event \<Rightarrow> session option" where
  "handle st (SetImage url) = Some (st\<lparr>image_src := Some url\<rparr>)"
| "handle st (KeyDown key) = Some (handleKeyDown key st)"
| "handle st RestartProject = Some (st\<lparr>image_src := None\<rparr>)"
| "handle st ResetProject = Some (st\<lparr>image_src := None\<rparr>)"
| "handle st (ImgOnLoad bmp w h) =
     map_option (\<lambda>p. st\<lparr>palette := p\<rparr>) (extractPalette bmp w h)"
| "handle st (ImgOnClick d) = pickColor d st"
| "handle st (PaletteButton i) =
     (if i < length (palette st) then selectSwatch (palette st ! i) st else Some st)"
| "handle st (HistoryButton i) =
     (if i < length (history st) then selectSwatch (history st ! i) st else Some st)"
| "handle st (HueInput v) =
     (case hsl (colorData st) of (h, s, l) \<Rightarrow> updateFromHSL v s l st)"
| "handle st (SaturationInput v) =
     (case hsl (colorData st) of (h, s, l) \<Rightarrow> updateFromHSL h v l st)"
| "handle st (LightnessInput v) =
     (case hsl (colorData st) of (h, s, l) \<Rightarrow> updateFromHSL h s v st)"

definition tool_event :: "event \<Rightarrow> bool" where
  \<comment> \<open>the events of elements that exist only while the image is shown\<close>
  "tool_event e = (case e of SetImage url \<Rightarrow> False | KeyDown key \<Rightarrow> False | _ \<Rightarrow> True)"

definition step :: "session \<Rightarrow> event \<Rightarrow> session option" where
  "step st e = (if tool_event e \<and> \<not> truthy (image_src st) then Some st else handle st e)"

fun run :: "session \<Rightarrow> event list \<Rightarrow> session option" where
  "run st [] = Some st"
| "run st (e # es) = (case step st e of None \<Rightarrow> None | Some st' \<Rightarrow> run st' es)"

inductive reachable :: "session \<Rightarrow> bool" where
  reach_start: "reachable initial"
| reach_step: "reachable st \<Longrightarrow> step st e = Some st' \<Longrightarrow> reachable st'"

text \<open>
  The hex strings of three bytes; the palette and the history of a session hold no other
  strings (\<open>inv\<close>).
\<close>

definition byte_hex :: "string \<Rightarrow> bool" where
  "byte_hex hx \<longleftrightarrow> (\<exists>r g b. 0 \<le> r \<and> r \<le> 255 \<and> 0 \<le> g \<and> g \<le> 255 \<and> 0 \<le> b \<and> b \<le> 255 \<and>
      hx = hex_of r g b)"

definition inv :: "session \<Rightarrow> bool" where
  "inv st \<longleftrightarrow> (\<forall>hx \<in> set (palette st) \<union> set (history st). byte_hex hx)"

section \<open>Rounding\<close>

lemma pow2_less_iff: "(2::rat) powi a < 2 powi b \<longleftrightarrow> a < b"
proof
  assume "(2::rat) powi a < 2 powi b"
  show "a < b"
  proof (rule ccontr)
    assume "\<not> a < b"
    then have "(2::rat) powi b \<le> 2 powi a"
      by (intro power_int_increasing) simp_all
    with \<open>(2::rat) powi a < 2 powi b\<close> show False by linarith
  qed
next
  assume "a < b"
  then show "(2::rat) powi a < 2 powi b"
    by (intro power_int_strict_increasing) simp_all
qed

lemma pow2_le_iff: "(2::rat) powi a \<le> 2 powi b \<longleftrightarrow> a \<le> b"
  using pow2_less_iff[of b a] by (simp add: not_less[symmetric])

lemma floorlog_rat_bounds:
  fixes y :: rat
  assumes "1 \<le> y"
  defines "j \<equiv> int (floorlog 2 (nat \<lfloor>y\<rfloor>)) - 1"
  shows "0 \<le> j" and "2 powi j \<le> y" and "y < 2 powi (j + 1)"
proof -
  let ?n = "nat \<lfloor>y\<rfloor>"
  have n1: "1 \<le> ?n" using assms(1) by (simp add: le_nat_iff)
  have n0: "0 < ?n" using n1 by linarith
  have b: "2 ^ (floorlog 2 ?n - 1) \<le> ?n" "?n < 2 ^ floorlog 2 ?n"
    using floorlog_bounds[OF n0, of 2] by simp_all
  have "floorlog 2 ?n \<noteq> 0"
    using n0 by (simp add: floorlog_eq_zero_iff)
  then have fpos: "1 \<le> floorlog 2 ?n" by linarith
  show j0: "0 \<le> j" using fpos by (simp add: j_def)
  have jn: "nat j = floorlog 2 ?n - 1" using fpos by (simp add: j_def)
  have j1n: "nat (j + 1) = floorlog 2 ?n" using fpos by (simp add: j_def)
  have ny: "of_nat ?n \<le> y" using assms(1) by simp
  have yn: "y < of_nat ?n + 1" using assms(1) by simp linarith
  have "(2::rat) powi j = 2 ^ nat j" using j0 by (simp add: power_int_nonneg_exp)
  also have "\<dots> = of_nat (2 ^ (floorlog 2 ?n - 1))" by (simp add: jn)
  also have "\<dots> \<le> of_nat ?n" using b(1) by (rule of_nat_mono)
  finally show "2 powi j \<le> y" using ny by linarith
  have "of_nat ?n + (1::rat) = of_nat (Suc ?n)" by simp
  also have "\<dots> \<le> of_nat (2 ^ floorlog 2 ?n)"
    by (rule of_nat_mono) (rule Suc_leI[OF b(2)])
  also have "\<dots> = (2::rat) ^ nat (j + 1)" by (simp add: j1n)
  also have "\<dots> = 2 powi (j + 1)" using j0 by (simp add: power_int_nonneg_exp)
  finally show "y < 2 powi (j + 1)" using yn by linarith
qed

lemma expo_bounds:
  assumes "0 < x"
  shows "2 powi expo x \<le> x" and "x < 2 powi (expo x + 1)"
proof -
  have "2 powi expo x \<le> x \<and> x < 2 powi (expo x + 1)"
  proof (cases "1 \<le> x")
    case True
    then show ?thesis
      using floorlog_rat_bounds[of x] by (simp add: expo_def)
  next
    case False
    define y where "y = 1 / x"
    define j where "j = int (floorlog 2 (nat \<lfloor>y\<rfloor>)) - 1"
    have y1: "1 \<le> y" using False assms by (simp add: y_def)
    have xy: "x = 1 / y" by (simp add: y_def)
    have jb: "2 powi j \<le> y" "y < 2 powi (j + 1)"
      using floorlog_rat_bounds[OF y1] by (simp_all add: j_def)
    have ypos: "0 < y" using y1 by linarith
    have lo: "2 powi (- j - 1) < x"
    proof -
      have "1 / (2 powi (j + 1)) < 1 / y"
        using jb(2) ypos by (simp add: frac_less2)
      moreover have "(2::rat) powi (- j - 1) = 1 / 2 powi (j + 1)"
        using power_int_minus_divide[of "2::rat" "j + 1"] by simp
      ultimately show ?thesis by (simp add: xy)
    qed
    have hi: "x \<le> 2 powi (- j)"
    proof -
      have "1 / y \<le> 1 / (2 powi j)"
        using jb(1) by (simp add: frac_le)
      then show ?thesis by (simp add: xy power_int_minus_divide)
    qed
    have e: "expo x = (if x = 1 / 2 powi j then - j else - j - 1)"
      using False by (simp add: expo_def j_def y_def Let_def)
    show ?thesis
    proof (cases "x = 1 / 2 powi j")
      case True
      then have ex: "expo x = - j" using e by simp
      have "x = 2 powi (-j)" using True by (simp add: power_int_minus_divide)
      moreover have "(2::rat) powi (-j) < 2 powi (-j + 1)"
        by (rule power_int_strict_increasing) simp_all
      ultimately show ?thesis unfolding ex by simp
    next
      case False
      then have ex: "expo x = - j - 1" using e by simp
      have "x \<noteq> 2 powi (-j)" using False by (simp add: power_int_minus_divide)
      then have "x < 2 powi (-j)" using hi by simp
      then show ?thesis using lo by (simp add: ex)
    qed
  qed
  then show "2 powi expo x \<le> x" and "x < 2 powi (expo x + 1)" by simp_all
qed

lemma expo_unique:
  assumes "2 powi e \<le> x" "x < 2 powi (e + 1)"
  shows "expo x = e"
proof -
  have xpos: "0 < x" using assms(1) zero_less_power_int[of "2::rat" e] by linarith
  note b = expo_bounds[OF xpos]
  have "(2::rat) powi e < 2 powi (expo x + 1)" using assms(1) b(2) by linarith
  then have 1: "e < expo x + 1" by (simp only: pow2_less_iff)
  have "(2::rat) powi expo x < 2 powi (e + 1)" using assms(2) b(1) by linarith
  then have 2: "expo x < e + 1" by (simp only: pow2_less_iff)
  from 1 2 show ?thesis by linarith
qed


lemma rne_of_int [simp]: "rne (of_int n) = n"
  by (simp add: rne_def)

lemma rne_ge_floor: "\<lfloor>x\<rfloor> \<le> rne x"
  by (simp add: rne_def Let_def)

lemma rne_le_floor1: "rne x \<le> \<lfloor>x\<rfloor> + 1"
  by (simp add: rne_def Let_def)

lemma rne_mono: "x \<le> y \<Longrightarrow> rne x \<le> rne y"
proof -
  assume xy: "x \<le> y"
  then have fm: "\<lfloor>x\<rfloor> \<le> \<lfloor>y\<rfloor>" by (rule floor_mono)
  show ?thesis
  proof (cases "\<lfloor>x\<rfloor> = \<lfloor>y\<rfloor>")
    case True
    then show ?thesis using xy by (auto simp: rne_def Let_def)
  next
    case False
    then have "\<lfloor>x\<rfloor> + 1 \<le> \<lfloor>y\<rfloor>" using fm by linarith
    then show ?thesis
      using rne_le_floor1[of x] rne_ge_floor[of y] by linarith
  qed
qed

lemma rne_minus: "rne (- x) = - rne x"
proof (cases "x = of_int \<lfloor>x\<rfloor>")
  case True
  then obtain n where "x = of_int n" ..
  then have "- x = of_int (- n)" by simp
  then show ?thesis using \<open>x = of_int n\<close> by (simp only: rne_of_int)
next
  case False
  define n where "n = \<lfloor>x\<rfloor>"
  have "of_int n \<le> x" "x < of_int n + 1"
    using floor_correct[of x] by (simp_all add: n_def)
  moreover from False have "x \<noteq> of_int n" unfolding n_def .
  ultimately have nx: "of_int n < x" "x < of_int n + 1" by linarith+
  have fn: "\<lfloor>- x\<rfloor> = - n - 1"
    using nx by (intro floor_unique) simp_all
  show ?thesis
    using nx by (auto simp: rne_def Let_def fn n_def[symmetric])
qed

lemma rne_error: "\<bar>of_int (rne x) - x\<bar> \<le> 1/2"
proof -
  define n where "n = \<lfloor>x\<rfloor>"
  have "of_int n \<le> x" "x < of_int n + 1"
    using floor_correct[of x] by (simp_all add: n_def)
  then show ?thesis
    unfolding rne_def Let_def n_def[symmetric] by (auto simp: abs_if)
qed

lemma fl_0 [simp]: "fl 0 = 0"
  by (simp add: fl_def)

lemma fl_minus: "fl (- x) = - fl x"
  by (simp add: fl_def Let_def rne_minus)

text \<open>The significand of a positive number lies in \<open>[2^52, 2^53)\<close>.\<close>

lemma significand_bounds:
  assumes "0 < x"
  defines "u \<equiv> 2 powi (expo x - 52)"
  shows "2 ^ 52 \<le> x / u" and "x / u < 2 ^ 53" and "0 < u"
proof -
  show u0: "0 < u" by (simp add: u_def)
  have p: "(2::rat) powi expo x = 2 ^ 52 * u"
    using power_int_add[of "2::rat" 52 "expo x - 52"] by (simp add: u_def)
  have q: "(2::rat) powi (expo x + 1) = 2 ^ 53 * u"
    using power_int_add[of "2::rat" 53 "expo x - 52"] by (simp add: u_def add.commute)
  from expo_bounds[OF assms(1)] have "2 ^ 52 * u \<le> x" "x < 2 ^ 53 * u"
    by (simp_all only: p q)
  then show "2 ^ 52 \<le> x / u" and "x / u < 2 ^ 53"
    using u0 by (simp_all add: pos_le_divide_eq pos_divide_less_eq)
qed

lemma fl_pos_eq:
  "0 < x \<Longrightarrow> fl x = of_int (rne (x / 2 powi (expo x - 52))) * 2 powi (expo x - 52)"
  by (simp add: fl_def Let_def)

lemma fl_binade:
  assumes "0 < x"
  shows "2 powi expo x \<le> fl x" and "fl x \<le> 2 powi (expo x + 1)"
proof -
  define u :: rat where "u = 2 powi (expo x - 52)"
  note sb = significand_bounds[OF assms, folded u_def]
  have f: "fl x = of_int (rne (x / u)) * u"
    using assms by (simp add: fl_pos_eq u_def)
  have p: "(2::rat) powi expo x = 2 ^ 52 * u"
    using power_int_add[of "2::rat" 52 "expo x - 52"] by (simp add: u_def)
  have q: "(2::rat) powi (expo x + 1) = 2 ^ 53 * u"
    using power_int_add[of "2::rat" 53 "expo x - 52"] by (simp add: u_def add.commute)
  have "rne (of_int (2 ^ 52)) \<le> rne (x / u)"
    using sb(1) by (intro rne_mono) simp
  then have lo: "2 ^ 52 \<le> rne (x / u)" by (simp only: rne_of_int)
  have "rne (x / u) \<le> rne (of_int (2 ^ 53))"
    using sb(2) by (intro rne_mono) simp
  then have hi: "rne (x / u) \<le> 2 ^ 53" by (simp only: rne_of_int)
  have "(2::rat) ^ 52 \<le> of_int (rne (x / u))"
    using lo by (metis of_int_le_iff of_int_numeral of_int_power)
  then show "2 powi expo x \<le> fl x"
    unfolding f p using sb(3) by (simp add: mult_right_mono)
  have "of_int (rne (x / u)) \<le> (2::rat) ^ 53"
    using hi by (metis of_int_le_iff of_int_numeral of_int_power)
  then show "fl x \<le> 2 powi (expo x + 1)"
    unfolding f q using sb(3) by (simp add: mult_right_mono)
qed

lemma fl_pos: "0 < x \<Longrightarrow> 0 < fl x"
  using fl_binade(1)[of x] zero_less_power_int[of "2::rat" "expo x"] by linarith

lemma fl_neg: "x < 0 \<Longrightarrow> fl x < 0"
  using fl_pos[of "- x"] by (simp add: fl_minus)

lemma fl_eq_0_iff [simp]: "fl x = 0 \<longleftrightarrow> x = 0"
  using fl_pos[of x] fl_neg[of x] by (cases "x = 0"; cases "0 < x") auto

lemma expo_mono: "0 < x \<Longrightarrow> x \<le> y \<Longrightarrow> expo x \<le> expo y"
proof -
  assume x: "0 < x" and xy: "x \<le> y"
  then have y: "0 < y" by linarith
  have "(2::rat) powi expo x < 2 powi (expo y + 1)"
    using expo_bounds(1)[OF x] expo_bounds(2)[OF y] xy by linarith
  then have "expo x < expo y + 1" by (simp only: pow2_less_iff)
  then show ?thesis by linarith
qed

lemma fl_mono_pos:
  assumes "0 < x" "x \<le> y"
  shows "fl x \<le> fl y"
proof -
  have y: "0 < y" using assms by linarith
  show ?thesis
  proof (cases "expo x = expo y")
    case True
    define u :: rat where "u = 2 powi (expo y - 52)"
    have u0: "0 < u" by (simp add: u_def)
    have "x / u \<le> y / u" using assms(2) u0 by (simp add: divide_right_mono)
    then have "rne (x / u) \<le> rne (y / u)" by (rule rne_mono)
    then have "(of_int (rne (x / u)) :: rat) * u \<le> of_int (rne (y / u)) * u"
      using u0 by (simp add: mult_right_mono)
    then show ?thesis
      using assms(1) y by (simp add: fl_pos_eq True u_def)
  next
    case False
    then have "expo x + 1 \<le> expo y" using expo_mono[OF assms] by linarith
    then have "(2::rat) powi (expo x + 1) \<le> 2 powi expo y"
      by (simp only: pow2_le_iff)
    then show ?thesis
      using fl_binade(2)[OF assms(1)] fl_binade(1)[OF y] by linarith
  qed
qed

lemma fl_mono: "x \<le> y \<Longrightarrow> fl x \<le> fl y"
proof -
  assume xy: "x \<le> y"
  consider "0 < x" | "x \<le> 0" "0 \<le> y" | "y < 0" using xy by linarith
  then show ?thesis
  proof cases
    case 1
    then show ?thesis using xy by (rule fl_mono_pos)
  next
    case 2
    have "fl x \<le> 0" using 2(1) fl_neg[of x] by (cases "x = 0") auto
    moreover have "0 \<le> fl y" using 2(2) fl_pos[of y] by (cases "y = 0") auto
    ultimately show ?thesis by linarith
  next
    case 3
    then have "fl (- y) \<le> fl (- x)" using xy by (intro fl_mono_pos) simp_all
    then show ?thesis by (simp add: fl_minus)
  qed
qed

text \<open>Numbers \<open>m * 2^k\<close> with \<open>|m| \<le> 2^53\<close> are representable.\<close>

lemma fl_repr_pos:
  assumes "0 < m" "m < 2 ^ 53"
  shows "fl (of_int m * 2 powi k) = of_int m * 2 powi k"
proof -
  define x :: rat where "x = of_int m * 2 powi k"
  have x0: "0 < x" using assms(1) by (simp add: x_def)
  define u :: rat where "u = 2 powi (expo x - 52)"
  note sb = significand_bounds[OF x0, folded u_def]
  have xu: "x / u = of_int m * 2 powi (k - (expo x - 52))"
    by (simp add: x_def u_def power_int_diff)
  have "k - (expo x - 52) \<ge> 0"
  proof (rule ccontr)
    assume "\<not> k - (expo x - 52) \<ge> 0"
    then have "k - (expo x - 52) \<le> - 1" by linarith
    then have "(2::rat) powi (k - (expo x - 52)) \<le> 2 powi (- 1)"
      by (simp only: pow2_le_iff)
    then have "(2::rat) powi (k - (expo x - 52)) \<le> 1 / 2" by simp
    moreover have "m \<le> 2 ^ 53 - 1" using assms(2) by linarith
    then have "(of_int m :: rat) \<le> of_int (2 ^ 53 - 1)"
      by (simp only: of_int_le_iff)
    then have "(of_int m :: rat) \<le> 2 ^ 53 - 1" by simp
    moreover have "0 < (of_int m :: rat)" using assms(1) by simp
    ultimately have "of_int m * (2::rat) powi (k - (expo x - 52)) \<le> (2 ^ 53 - 1) * (1 / 2)"
      by (intro mult_mono) simp_all
    then have "x / u < 2 ^ 52" by (simp add: xu)
    then show False using sb(1) by linarith
  qed
  then obtain j where j: "k - (expo x - 52) = int j"
    using nonneg_int_cases by blast
  have xi: "x / u = of_int (m * 2 ^ j)" by (simp add: xu j)
  then have "rne (x / u) = m * 2 ^ j" by (simp only: rne_of_int)
  then have "fl x = of_int (m * 2 ^ j) * u"
    using x0 by (simp add: fl_pos_eq u_def)
  also have "\<dots> = (x / u) * u" by (simp only: xi)
  also have "\<dots> = x" using sb(3) by simp
  finally show ?thesis by (simp add: x_def)
qed

lemma fl_repr:
  assumes "\<bar>m\<bar> \<le> 2 ^ 53"
  shows "fl (of_int m * 2 powi k) = of_int m * 2 powi k"
proof -
  have pos: "fl (of_int n * 2 powi k) = of_int n * 2 powi k" if "0 < n" "n \<le> 2 ^ 53" for n
  proof (cases "n = 2 ^ 53")
    case True
    have "(of_int n :: rat) * 2 powi k = of_int (2 ^ 52) * 2 powi (k + 1)"
      by (simp add: True power_int_add)
    moreover have "fl (of_int (2 ^ 52) * 2 powi (k + 1)) = of_int (2 ^ 52) * 2 powi (k + 1)"
      by (rule fl_repr_pos) simp_all
    ultimately show ?thesis by simp
  next
    case False
    then show ?thesis using that by (intro fl_repr_pos) simp_all
  qed
  consider "m = 0" | "0 < m" | "m < 0" by linarith
  then show ?thesis
  proof cases
    case 1
    then show ?thesis by simp
  next
    case 2
    then show ?thesis using assms by (intro pos) simp_all
  next
    case 3
    then have "fl (of_int (- m) * 2 powi k) = of_int (- m) * 2 powi k"
      using assms by (intro pos) simp_all
    then show ?thesis using fl_minus[of "of_int m * 2 powi k"] by simp
  qed
qed

lemma fl_of_int: "\<bar>m\<bar> \<le> 2 ^ 53 \<Longrightarrow> fl (of_int m) = of_int m"
  using fl_repr[of m 0] by simp

lemma fl_idem [simp]: "fl (fl x) = fl x"
proof -
  have pos: "fl (fl y) = fl y" if "0 < y" for y
  proof -
    define u :: rat where "u = 2 powi (expo y - 52)"
    note sb = significand_bounds[OF that, folded u_def]
    have "rne (of_int (2 ^ 52)) \<le> rne (y / u)"
      using sb(1) by (intro rne_mono) simp
    then have lo: "2 ^ 52 \<le> rne (y / u)" by (simp only: rne_of_int)
    have "rne (y / u) \<le> rne (of_int (2 ^ 53))"
      using sb(2) by (intro rne_mono) simp
    then have hi: "rne (y / u) \<le> 2 ^ 53" by (simp only: rne_of_int)
    have "fl y = of_int (rne (y / u)) * 2 powi (expo y - 52)"
      using that by (simp add: fl_pos_eq u_def)
    moreover have "fl (of_int (rne (y / u)) * 2 powi (expo y - 52))
        = of_int (rne (y / u)) * 2 powi (expo y - 52)"
      using lo hi by (intro fl_repr) simp
    ultimately show ?thesis by simp
  qed
  consider "x = 0" | "0 < x" | "x < 0" by linarith
  then show ?thesis
  proof cases
    case 1
    then show ?thesis by simp
  next
    case 2
    then show ?thesis by (rule pos)
  next
    case 3
    then have "fl (fl (- x)) = fl (- x)" by (intro pos) simp
    then show ?thesis by (simp add: fl_minus)
  qed
qed

lemma fl_error:
  assumes "x \<noteq> 0"
  shows "\<bar>fl x - x\<bar> \<le> 2 powi (expo \<bar>x\<bar> - 53)"
proof -
  define u :: rat where "u = 2 powi (expo \<bar>x\<bar> - 52)"
  have u0: "0 < u" by (simp add: u_def)
  have f: "fl x = of_int (rne (x / u)) * u"
    using assms by (simp add: fl_def u_def Let_def)
  have "fl x - x = (of_int (rne (x / u)) - x / u) * u"
    using u0 by (simp add: f algebra_simps)
  then have "\<bar>fl x - x\<bar> = \<bar>of_int (rne (x / u)) - x / u\<bar> * u"
    using u0 by (simp add: abs_mult)
  also have "\<dots> \<le> (1 / 2) * u"
    using rne_error[of "x / u"] u0 by (intro mult_right_mono) simp_all
  also have "\<dots> = 2 powi (expo \<bar>x\<bar> - 53)"
    using power_int_add[of "2::rat" "expo \<bar>x\<bar> - 53" 1] by (simp add: u_def)
  finally show ?thesis .
qed

lemma fl_rel_error: "\<bar>fl x - x\<bar> \<le> \<bar>x\<bar> / 2 ^ 53"
proof (cases "x = 0")
  case True
  then show ?thesis by simp
next
  case False
  then have ax: "0 < \<bar>x\<bar>" by simp
  have "(2::rat) powi (expo \<bar>x\<bar> - 53) = 2 powi expo \<bar>x\<bar> / 2 ^ 53"
    by (simp add: power_int_diff)
  also have "\<dots> \<le> \<bar>x\<bar> / 2 ^ 53"
    using expo_bounds(1)[OF ax] by (simp add: divide_right_mono)
  finally show ?thesis using fl_error[OF False] by linarith
qed

section \<open>Evaluating the rounded operations\<close>

text \<open>
  On a numeral the binary exponent is found by trying the few exponents that occur, so
  that the simplifier evaluates \<open>fl\<close> with its own arithmetic.
\<close>

lemma fl_eval:
  "2 powi e \<le> \<bar>x\<bar> \<Longrightarrow> \<bar>x\<bar> < 2 powi (e + 1)
    \<Longrightarrow> fl x = of_int (rne (x / 2 powi (e - 52))) * 2 powi (e - 52)"
proof -
  assume a: "2 powi e \<le> \<bar>x\<bar>" "\<bar>x\<bar> < 2 powi (e + 1)"
  have "0 < \<bar>x\<bar>" using a(1) zero_less_power_int[of "2::rat" e] by linarith
  then have "x \<noteq> 0" by simp
  moreover have "expo \<bar>x\<bar> = e" using a by (rule expo_unique)
  ultimately show ?thesis by (simp add: fl_def Let_def)
qed

lemma floor_rat_numeral [simp]:
  "\<lfloor>(numeral a :: rat) / numeral b\<rfloor> = numeral a div numeral b"
  by (metis floor_divide_of_int_eq of_int_numeral)

lemma floor_rat_neg_numeral [simp]:
  "\<lfloor>- ((numeral a :: rat) / numeral b)\<rfloor> = - numeral a div numeral b"
  by (metis divide_minus_left floor_divide_of_int_eq of_int_neg_numeral of_int_numeral)

lemma floor_rat_one_numeral [simp]: "\<lfloor>(1 :: rat) / numeral b\<rfloor> = 1 div numeral b"
  by (metis floor_divide_of_int_eq of_int_1 of_int_numeral)

lemmas fl_evals =
  fl_eval[of "-12"] fl_eval[of "-11"] fl_eval[of "-10"] fl_eval[of "-9"] fl_eval[of "-8"]
  fl_eval[of "-7"] fl_eval[of "-6"] fl_eval[of "-5"] fl_eval[of "-4"] fl_eval[of "-3"]
  fl_eval[of "-2"] fl_eval[of "-1"] fl_eval[of 0] fl_eval[of 1] fl_eval[of 2] fl_eval[of 3]
  fl_eval[of 4] fl_eval[of 5] fl_eval[of 6] fl_eval[of 7] fl_eval[of 8] fl_eval[of 9]

lemmas num_defs = fadd_def fsub_def fmul_def fdiv_def fdiv_opt_def lit_def Math_round_def
  Math_max3_def Math_min3_def percent_def rne_def Let_def or_zero_def max_def min_def

lemma bind_weak_cong: "x = y \<Longrightarrow> Option.bind x f = Option.bind y f"
  by simp

lemma map_option_weak_cong: "x = y \<Longrightarrow> map_option f x = map_option f y"
  by simp

lemmas eval_defs = calculateColorDetails_def hsl_of_def cmyk_of_def hex_of_def toHex_def
  toString_def padStart_def digit_char_def fl_evals num_defs

lemmas eval_congs = bind_weak_cong map_option_weak_cong prod.case_cong_weak

lemma calculateColorDetails_black:
  "calculateColorDetails 0 0 0 =
     Some \<lparr> hex = ''#000000'', rgb = (0, 0, 0), hsl = (0, 0, 0), cmyk = ''0, 0, 0, 100'' \<rparr>"
  by (simp add: eval_defs cong: eval_congs)

lemma calculateColorDetails_default:
  "calculateColorDetails 99 102 241 =
     Some \<lparr> hex = ''#6366f1'', rgb = (99, 102, 241), hsl = (239, 84, 67),
            cmyk = ''59, 58, 0, 5'' \<rparr>"
  by (simp add: eval_defs cong: eval_congs)

section \<open>Bounds of the rounded operations\<close>

lemma fl_le_int: "x \<le> of_int m \<Longrightarrow> \<bar>m\<bar> \<le> 2 ^ 53 \<Longrightarrow> fl x \<le> of_int m"
  using fl_mono[of x "of_int m"] by (simp add: fl_of_int)

lemma fl_ge_int: "of_int m \<le> x \<Longrightarrow> \<bar>m\<bar> \<le> 2 ^ 53 \<Longrightarrow> of_int m \<le> fl x"
  using fl_mono[of "of_int m" x] by (simp add: fl_of_int)

lemma fl_le_0: "x \<le> 0 \<Longrightarrow> fl x \<le> 0"
  using fl_le_int[of x 0] by simp

lemma fl_ge_0: "0 \<le> x \<Longrightarrow> 0 \<le> fl x"
  using fl_ge_int[of 0 x] by simp

lemma fl_le_1: "x \<le> 1 \<Longrightarrow> fl x \<le> 1"
  using fl_le_int[of x 1] by simp

lemma fl_ge_1: "1 \<le> x \<Longrightarrow> 1 \<le> fl x"
  using fl_ge_int[of 1 x] by simp

lemma fl_le_numeral: "x \<le> numeral n \<Longrightarrow> (numeral n :: int) \<le> 2 ^ 53 \<Longrightarrow> fl x \<le> numeral n"
  using fl_le_int[of x "numeral n"] by simp

lemma fl_ge_numeral: "numeral n \<le> x \<Longrightarrow> (numeral n :: int) \<le> 2 ^ 53 \<Longrightarrow> numeral n \<le> fl x"
  using fl_ge_int[of "numeral n" x] by simp

lemma Math_round_bounds:
  "of_int a \<le> x \<Longrightarrow> x \<le> of_int b \<Longrightarrow> a \<le> Math_round x \<and> Math_round x \<le> b"
  unfolding Math_round_def by (auto simp: le_floor_iff floor_le_iff) 

lemma Math_round_mono: "x \<le> y \<Longrightarrow> Math_round x \<le> Math_round y"
  unfolding Math_round_def by (simp add: floor_mono)

lemma percent_bounds: "0 \<le> x \<Longrightarrow> x \<le> 1 \<Longrightarrow> 0 \<le> percent x \<and> percent x \<le> 100"
proof -
  assume a: "0 \<le> x" "x \<le> 1"
  have "0 \<le> fmul x 100" unfolding fmul_def using a by (intro fl_ge_0) simp
  moreover have "fmul x 100 \<le> 100" unfolding fmul_def using a by (intro fl_le_numeral) simp_all
  ultimately show ?thesis
    unfolding percent_def using Math_round_bounds[of 0 "fmul x 100" 100] by simp
qed

lemma channel_unit:
  assumes "0 \<le> c" "c \<le> 255"
  shows "0 \<le> fdiv (of_int c) 255" and "fdiv (of_int c) 255 \<le> 1"
proof -
  show "0 \<le> fdiv (of_int c) 255" unfolding fdiv_def using assms by (intro fl_ge_0) simp
  show "fdiv (of_int c) 255 \<le> 1" unfolding fdiv_def using assms by (intro fl_le_1) simp
qed


section \<open>The converter is total on bytes\<close>

lemma fdiv_unit:
  assumes "0 < d" "- d \<le> n" "n \<le> d"
  shows "- 1 \<le> fdiv n d" and "fdiv n d \<le> 1"
proof -
  have "n / d \<le> 1" using assms by (simp add: pos_divide_le_eq)
  then show "fdiv n d \<le> 1" unfolding fdiv_def by (rule fl_le_1)
  have "- 1 \<le> n / d" using assms by (simp add: pos_le_divide_eq)
  then have "of_int (- 1) \<le> fl (n / d)" by (intro fl_ge_int) simp_all
  then show "- 1 \<le> fdiv n d" unfolding fdiv_def by simp
qed

lemma fdiv_nonneg: "0 < d \<Longrightarrow> 0 \<le> n \<Longrightarrow> 0 \<le> fdiv n d"
  unfolding fdiv_def by (intro fl_ge_0) simp

lemma fdiv_nonpos: "0 < d \<Longrightarrow> n \<le> 0 \<Longrightarrow> fdiv n d \<le> 0"
  unfolding fdiv_def by (intro fl_le_0) (simp add: divide_nonpos_pos)

lemma fsub_mono: "x - y \<le> a - b \<Longrightarrow> fsub x y \<le> fsub a b"
  unfolding fsub_def by (rule fl_mono)

lemma fsub_swap: "fsub x y = - fsub y x"
  unfolding fsub_def using fl_minus[of "y - x"] by simp

lemma fsub_pos: "y < x \<Longrightarrow> 0 < fsub x y"
  unfolding fsub_def by (intro fl_pos) simp

lemma fsub_nonneg: "y \<le> x \<Longrightarrow> 0 \<le> fsub x y"
  unfolding fsub_def by (intro fl_ge_0) simp

lemma fsub_nonpos: "x \<le> y \<Longrightarrow> fsub x y \<le> 0"
  unfolding fsub_def by (intro fl_le_0) simp

text \<open>A difference of two channels, divided by the spread \<open>d\<close>, lies in \<open>[-1, 1]\<close>.\<close>

lemma hue_quotient:
  assumes "mn \<le> x" "x \<le> mx" "mn \<le> y" "y \<le> mx" "mn < mx"
  defines "d \<equiv> fsub mx mn"
  shows "fdiv_opt (fsub x y) d = Some (fdiv (fsub x y) d)"
    and "- 1 \<le> fdiv (fsub x y) d" and "fdiv (fsub x y) d \<le> 1"
    and "x < y \<Longrightarrow> fdiv (fsub x y) d \<le> 0" and "y \<le> x \<Longrightarrow> 0 \<le> fdiv (fsub x y) d"
proof -
  have d0: "0 < d" unfolding d_def using assms(5) by (rule fsub_pos)
  then show "fdiv_opt (fsub x y) d = Some (fdiv (fsub x y) d)"
    by (simp add: fdiv_opt_def)
  have up: "fsub x y \<le> d" unfolding d_def using assms by (intro fsub_mono) linarith
  have "fsub y x \<le> d" unfolding d_def using assms by (intro fsub_mono) linarith
  then have lo: "- d \<le> fsub x y" using fsub_swap[of x y] by linarith
  show "- 1 \<le> fdiv (fsub x y) d" and "fdiv (fsub x y) d \<le> 1"
    using fdiv_unit[OF d0 lo up] by simp_all
  show "x < y \<Longrightarrow> fdiv (fsub x y) d \<le> 0"
    using d0 by (intro fdiv_nonpos fsub_nonpos) simp_all
  show "y \<le> x \<Longrightarrow> 0 \<le> fdiv (fsub x y) d"
    using d0 by (intro fdiv_nonneg fsub_nonneg) simp_all
qed

lemma fadd_bounds:
  "of_int a \<le> x + y \<Longrightarrow> x + y \<le> of_int b \<Longrightarrow> \<bar>a\<bar> \<le> 2 ^ 53 \<Longrightarrow> \<bar>b\<bar> \<le> 2 ^ 53
    \<Longrightarrow> of_int a \<le> fadd x y \<and> fadd x y \<le> of_int b"
  unfolding fadd_def by (simp add: fl_le_int fl_ge_int)

lemma hsl_of_total:
  assumes "0 \<le> r'" "r' \<le> 1" "0 \<le> g'" "g' \<le> 1" "0 \<le> b'" "b' \<le> 1"
  shows "\<exists>h s l. hsl_of r' g' b' = Some (h, s, l) \<and>
           0 \<le> h \<and> h \<le> 1 \<and> 0 \<le> s \<and> s \<le> 1 \<and> 0 \<le> l \<and> l \<le> 1"
proof -
  define mx where "mx = Math_max3 r' g' b'"
  define mn where "mn = Math_min3 r' g' b'"
  define l where "l = fdiv (fadd mx mn) 2"
  define d where "d = fsub mx mn"
  have mxb: "r' \<le> mx" "g' \<le> mx" "b' \<le> mx" "mx \<le> 1"
    using assms by (simp_all add: mx_def Math_max3_def)
  have mnb: "mn \<le> r'" "mn \<le> g'" "mn \<le> b'" "0 \<le> mn"
    using assms by (simp_all add: mn_def Math_min3_def)
  have mxcases: "mx = r' \<or> mx = g' \<or> mx = b'"
    by (auto simp: mx_def Math_max3_def max_def)
  have sum: "0 \<le> fadd mx mn" "fadd mx mn \<le> 2"
    using fadd_bounds[of 0 mx mn 2] mxb mnb by simp_all
  have l0: "0 \<le> l" unfolding l_def fdiv_def using sum by (intro fl_ge_0) simp
  have l1: "l \<le> 1" unfolding l_def fdiv_def using sum by (intro fl_le_1) simp
  show ?thesis
  proof (cases "mx = mn")
    case True
    then have "hsl_of r' g' b' = Some (0, 0, l)"
      by (simp add: hsl_of_def Let_def mx_def mn_def l_def)
    then show ?thesis using l0 l1 by simp
  next
    case False
    then have lt: "mn < mx" using mxb mnb by linarith
    have d0: "0 < d" unfolding d_def using lt by (rule fsub_pos)
    \<comment> \<open>saturation\<close>
    define den1 where "den1 = fsub (fsub 2 mx) mn"
    define den2 where "den2 = fadd mx mn"
    have "1 \<le> fsub 2 mx" unfolding fsub_def using mxb by (intro fl_ge_1) simp
    then have "mx - mn \<le> fsub 2 mx - mn" using mxb by linarith
    then have dd1: "d \<le> den1" unfolding d_def den1_def fsub_def by (rule fl_mono)
    have "mx - mn \<le> mx + mn" using mnb by linarith
    then have dd2: "d \<le> den2" unfolding d_def den2_def fsub_def fadd_def by (rule fl_mono)
    have l_alt: "fdiv den2 2 = l" by (simp add: l_def den2_def)
    define sv where "sv = (if l > lit (1/2) then fdiv d den1 else fdiv d den2)"
    have s_eq: "fdiv_opt d den1 = Some (fdiv d den1)" "fdiv_opt d den2 = Some (fdiv d den2)"
      using d0 dd1 dd2 by (auto simp: fdiv_opt_def)
    have s0: "0 \<le> sv" unfolding sv_def using d0 dd1 dd2 by (auto intro!: fdiv_nonneg)
    have s1: "sv \<le> 1" unfolding sv_def using d0 dd1 dd2 by (auto intro!: fdiv_unit(2))
    \<comment> \<open>hue\<close>
    define hv where "hv =
      (if mx = r' then fadd (fdiv (fsub g' b') d) (if g' < b' then 6 else 0)
       else if mx = g' then fadd (fdiv (fsub b' r') d) 2
       else fadd (fdiv (fsub r' g') d) 4)"
    note qgb = hue_quotient[OF mnb(2) mxb(2) mnb(3) mxb(3) lt, folded d_def]
    note qbr = hue_quotient[OF mnb(3) mxb(3) mnb(1) mxb(1) lt, folded d_def]
    note qrg = hue_quotient[OF mnb(1) mxb(1) mnb(2) mxb(2) lt, folded d_def]
    have h_eq: "(if mx = r' then
                   map_option (\<lambda>q. fadd q (if g' < b' then 6 else 0)) (fdiv_opt (fsub g' b') d)
                 else if mx = g' then
                   map_option (\<lambda>q. fadd q 2) (fdiv_opt (fsub b' r') d)
                 else
                   map_option (\<lambda>q. fadd q 4) (fdiv_opt (fsub r' g') d)) = Some hv"
      by (simp add: hv_def qgb(1) qbr(1) qrg(1))
    have hb: "0 \<le> hv \<and> hv \<le> 6"
    proof -
      have 1: "0 \<le> fadd q 6 \<and> fadd q 6 \<le> 6" if "- 1 \<le> q" "q \<le> 0" for q
        using fadd_bounds[of 0 q 6 6] that by simp
      have 2: "0 \<le> fadd q 0 \<and> fadd q 0 \<le> 6" if "0 \<le> q" "q \<le> 1" for q
        using fadd_bounds[of 0 q 0 6] that by simp
      have 3: "0 \<le> fadd q 2 \<and> fadd q 2 \<le> 6" if "- 1 \<le> q" "q \<le> 1" for q
        using fadd_bounds[of 0 q 2 6] that by simp
      have 4: "0 \<le> fadd q 4 \<and> fadd q 4 \<le> 6" if "- 1 \<le> q" "q \<le> 1" for q
        using fadd_bounds[of 0 q 4 6] that by simp
      show ?thesis
        unfolding hv_def
        using 1[OF qgb(2) qgb(4)] 2[OF qgb(5) qgb(3)] 3[OF qbr(2) qbr(3)] 4[OF qrg(2) qrg(3)]
        by (auto simp: not_less)
    qed
    have h0: "0 \<le> fdiv hv 6" unfolding fdiv_def using hb by (intro fl_ge_0) simp
    have h1: "fdiv hv 6 \<le> 1" unfolding fdiv_def using hb by (intro fl_le_1) simp
    have "hsl_of r' g' b' = Some (fdiv hv 6, sv, l)"
      using False h_eq
      by (simp add: s_eq sv_def hsl_of_def Let_def mx_def[symmetric] mn_def[symmetric]
          d_def[symmetric] den1_def[symmetric] den2_def[symmetric] l_alt)
    then show ?thesis using h0 h1 s0 s1 l0 l1 by simp
  qed
qed


lemma or_zero_unit:
  assumes "0 \<le> n" "n \<le> d"
  shows "\<exists>q. or_zero n d = Some q \<and> 0 \<le> q \<and> q \<le> 1"
proof (cases "d = 0")
  case True
  then have "n = 0" using assms by linarith
  then show ?thesis using True by (simp add: or_zero_def)
next
  case False
  then have d0: "0 < d" using assms by linarith
  have "- d \<le> n" using assms d0 by linarith
  then show ?thesis
    using False fdiv_nonneg[OF d0 assms(1)] fdiv_unit(2)[OF d0 _ assms(2)]
    by (simp add: or_zero_def)
qed

lemma cmyk_of_total:
  assumes "0 \<le> r'" "r' \<le> 1" "0 \<le> g'" "g' \<le> 1" "0 \<le> b'" "b' \<le> 1"
  shows "\<exists>c m y k. cmyk_of r' g' b' = Some (c, m, y, k) \<and>
           0 \<le> c \<and> c \<le> 1 \<and> 0 \<le> m \<and> m \<le> 1 \<and> 0 \<le> y \<and> y \<le> 1 \<and> 0 \<le> k \<and> k \<le> 1"
proof -
  define mx where "mx = Math_max3 r' g' b'"
  define k where "k = fsub 1 mx"
  have mxb: "r' \<le> mx" "g' \<le> mx" "b' \<le> mx" "mx \<le> 1" "0 \<le> mx"
    using assms by (simp_all add: mx_def Math_max3_def)
  have k0: "0 \<le> k" unfolding k_def using mxb by (intro fsub_nonneg) simp
  have k1: "k \<le> 1" unfolding k_def fsub_def using mxb by (intro fl_le_1) simp
  have chan: "\<exists>q. or_zero (fsub (fsub 1 x) k) (fsub 1 k) = Some q \<and> 0 \<le> q \<and> q \<le> 1"
    if "0 \<le> x" "x \<le> mx" for x
  proof (rule or_zero_unit)
    have "k \<le> fsub 1 x" unfolding k_def using that by (intro fsub_mono) simp
    then show "0 \<le> fsub (fsub 1 x) k" by (rule fsub_nonneg)
    have "fsub 1 x \<le> 1" unfolding fsub_def using that by (intro fl_le_1) simp
    then show "fsub (fsub 1 x) k \<le> fsub 1 k" by (intro fsub_mono) simp
  qed
  obtain c where c: "or_zero (fsub (fsub 1 r') k) (fsub 1 k) = Some c" "0 \<le> c" "c \<le> 1"
    using chan[OF assms(1) mxb(1)] by blast
  obtain m where m: "or_zero (fsub (fsub 1 g') k) (fsub 1 k) = Some m" "0 \<le> m" "m \<le> 1"
    using chan[OF assms(3) mxb(2)] by blast
  obtain y where y: "or_zero (fsub (fsub 1 b') k) (fsub 1 k) = Some y" "0 \<le> y" "y \<le> 1"
    using chan[OF assms(5) mxb(3)] by blast
  have "cmyk_of r' g' b' = Some (c, m, y, k)"
    by (simp add: cmyk_of_def Let_def mx_def[symmetric] k_def[symmetric] c(1) m(1) y(1))
  then show ?thesis using c m y k0 k1 by simp
qed

lemma hue_bounds: "0 \<le> x \<Longrightarrow> x \<le> 1 \<Longrightarrow> 0 \<le> Math_round (fmul x 360) \<and> Math_round (fmul x 360) \<le> 360"
proof -
  assume a: "0 \<le> x" "x \<le> 1"
  have "0 \<le> fmul x 360" unfolding fmul_def using a by (intro fl_ge_0) simp
  moreover have "fmul x 360 \<le> 360" unfolding fmul_def using a by (intro fl_le_numeral) simp_all
  ultimately show ?thesis
    using Math_round_bounds[of 0 "fmul x 360" 360] by simp
qed

lemma calculateColorDetails_total:
  assumes "0 \<le> r" "r \<le> 255" "0 \<le> g" "g \<le> 255" "0 \<le> b" "b \<le> 255"
  shows "\<exists>h s l c m y k.
           calculateColorDetails r g b =
             Some \<lparr> hex = hex_of r g b, rgb = (r, g, b), hsl = (h, s, l),
                    cmyk = toString 10 c @ '', '' @ toString 10 m @ '', ''
                           @ toString 10 y @ '', '' @ toString 10 k \<rparr> \<and>
           0 \<le> h \<and> h \<le> 360 \<and> 0 \<le> s \<and> s \<le> 100 \<and> 0 \<le> l \<and> l \<le> 100 \<and>
           0 \<le> c \<and> c \<le> 100 \<and> 0 \<le> m \<and> m \<le> 100 \<and> 0 \<le> y \<and> y \<le> 100 \<and>
           0 \<le> k \<and> k \<le> 100"
proof -
  define r' where "r' = fdiv (of_int r) 255"
  define g' where "g' = fdiv (of_int g) 255"
  define b' where "b' = fdiv (of_int b) 255"
  have u: "0 \<le> r'" "r' \<le> 1" "0 \<le> g'" "g' \<le> 1" "0 \<le> b'" "b' \<le> 1"
    using assms by (simp_all add: r'_def g'_def b'_def channel_unit)
  obtain h s l where hsl: "hsl_of r' g' b' = Some (h, s, l)"
    "0 \<le> h" "h \<le> 1" "0 \<le> s" "s \<le> 1" "0 \<le> l" "l \<le> 1"
    using hsl_of_total[OF u] by blast
  obtain c m y k where cmyk: "cmyk_of r' g' b' = Some (c, m, y, k)"
    "0 \<le> c" "c \<le> 1" "0 \<le> m" "m \<le> 1" "0 \<le> y" "y \<le> 1" "0 \<le> k" "k \<le> 1"
    using cmyk_of_total[OF u] by blast
  have "calculateColorDetails r g b =
          Some \<lparr> hex = hex_of r g b, rgb = (r, g, b),
                 hsl = (Math_round (fmul h 360), percent s, percent l),
                 cmyk = toString 10 (percent c) @ '', '' @ toString 10 (percent m) @ '', ''
                        @ toString 10 (percent y) @ '', '' @ toString 10 (percent k) \<rparr>"
    by (simp add: calculateColorDetails_def Let_def r'_def[symmetric] g'_def[symmetric]
        b'_def[symmetric] hsl(1) cmyk(1))
  then show ?thesis
    using hue_bounds[OF hsl(2,3)] percent_bounds[OF hsl(4,5)] percent_bounds[OF hsl(6,7)]
      percent_bounds[OF cmyk(2,3)] percent_bounds[OF cmyk(4,5)] percent_bounds[OF cmyk(6,7)]
      percent_bounds[OF cmyk(8,9)]
    by blast
qed

section \<open>Hex strings\<close>

lemma hex_digit_table:
  "\<forall>a \<in> set [0..<16]. hex_value (digit_char a) = Some a \<and> \<not> is_white_space (digit_char a) \<and>
      digit_char a \<noteq> CHR ''-'' \<and> digit_char a \<noteq> CHR ''+'' \<and> digit_char a \<noteq> CHR ''x'' \<and>
      digit_char a \<noteq> CHR ''X'' \<and> digit_char a \<in> set ''0123456789abcdef''"
  by code_simp

lemma hex_digit:
  assumes "a < 16"
  shows "hex_value (digit_char a) = Some a" and "\<not> is_white_space (digit_char a)"
    and "digit_char a \<noteq> CHR ''-''" and "digit_char a \<noteq> CHR ''+''"
    and "digit_char a \<noteq> CHR ''x''" and "digit_char a \<noteq> CHR ''X''"
    and "digit_char a \<in> set ''0123456789abcdef''"
  using hex_digit_table assms by (simp_all only: set_upt atLeastLessThan_iff ball_simps) auto

lemma toHex_byte:
  assumes "0 \<le> c" "c \<le> 255"
  shows "toHex c = [digit_char (nat c div 16), digit_char (nat c mod 16)]"
proof (cases "nat c < 16")
  case True
  then have "digits 16 (nat c) = [digit_char (nat c)]" by simp
  moreover have "digit_char 0 = CHR ''0''" by (simp add: digit_char_def)
  ultimately show ?thesis
    using assms True by (simp add: toHex_def toString_def padStart_def)
next
  case False
  have "nat c div 16 < 16" using assms by simp
  then have "digits 16 (nat c div 16) = [digit_char (nat c div 16)]" by simp
  then have "digits 16 (nat c) = [digit_char (nat c div 16), digit_char (nat c mod 16)]"
    using False by (subst digits.simps) simp
  then show ?thesis
    using assms by (simp add: toHex_def toString_def padStart_def)
qed

lemma parseInt16_two_digits:
  assumes "a < 16" "b < 16"
  shows "parseInt16 [digit_char a, digit_char b] = Some (int (16 * a + b))"
  using hex_digit[OF assms(1)] hex_digit[OF assms(2)]
  by (simp add: parseInt16_def Let_def List.map_filter_def)

lemma parseInt16_toHex:
  assumes "0 \<le> c" "c \<le> 255"
  shows "parseInt16 (toHex c) = Some c"
proof -
  have "nat c div 16 < 16" "nat c mod 16 < 16" using assms by simp_all
  then have "parseInt16 (toHex c) = Some (int (16 * (nat c div 16) + nat c mod 16))"
    by (simp only: toHex_byte[OF assms] parseInt16_two_digits)
  then show ?thesis using assms by simp
qed

lemma toHex_chars:
  assumes "0 \<le> c" "c \<le> 255"
  shows "length (toHex c) = 2" and "set (toHex c) \<subseteq> set ''0123456789abcdef''"
proof -
  have "nat c div 16 < 16" "nat c mod 16 < 16" using assms by simp_all
  then show "length (toHex c) = 2" and "set (toHex c) \<subseteq> set ''0123456789abcdef''"
    using hex_digit(7)[of "nat c div 16"] hex_digit(7)[of "nat c mod 16"]
    by (simp_all only: toHex_byte[OF assms]) simp_all
qed

lemma hex_of_slices:
  assumes "length (toHex r) = 2" "length (toHex g) = 2" "length (toHex b) = 2"
  shows "slice_str 1 3 (hex_of r g b) = toHex r" and "slice_str 3 5 (hex_of r g b) = toHex g"
    and "slice_str 5 7 (hex_of r g b) = toHex b" and "length (hex_of r g b) = 7"
  using assms by (simp_all add: slice_str_def hex_of_def)

section \<open>Properties of the selection history\<close>

lemma record_hex_fresh:
  "hx \<notin> set hist \<Longrightarrow> record_hex hist hx = take 12 (hx # hist)"
  by (simp add: record_hex_def)

lemma foldl_record_hex_distinct:
  "distinct xs \<Longrightarrow> foldl record_hex [] xs = take 12 (rev xs)"
proof (induction xs rule: rev_induct)
  case Nil
  show ?case by simp
next
  case (snoc x xs)
  have fresh: "x \<notin> set (take 12 (rev xs))"
    using snoc.prems by (auto dest: in_set_takeD)
  have "foldl record_hex [] (xs @ [x]) = record_hex (take 12 (rev xs)) x"
    using snoc by simp
  also have "\<dots> = take 12 (x # take 12 (rev xs))"
    using fresh by (rule record_hex_fresh)
  also have "\<dots> = take 12 (rev (xs @ [x]))"
    by (simp add: take_Cons')
  finally show ?case .
qed

text \<open>
  Claim C4. Recording a hex that the history already holds returns the history as it is.
  Recording any other hex puts it in front and keeps the first 12 entries, so the oldest
  entries beyond the capacity are dropped. Recording 13 distinct values one after the
  other, starting from the empty history, leaves the 12 most recent, newest first.
\<close>

theorem record_hex_bounded_dedup:
  "(hx \<in> set hist \<longrightarrow> record_hex hist hx = hist) \<and>
   (hx \<notin> set hist \<longrightarrow> record_hex hist hx = take 12 (hx # hist) \<and>
      length (record_hex hist hx) \<le> 12) \<and>
   (distinct xs \<and> length xs = 13 \<longrightarrow>
      foldl record_hex [] xs = rev (tl xs) \<and> length (foldl record_hex [] xs) = 12)"
proof (intro conjI impI)
  assume "hx \<in> set hist"
  then show "record_hex hist hx = hist" by (simp add: record_hex_def)
next
  assume "hx \<notin> set hist"
  then show "record_hex hist hx = take 12 (hx # hist)" by (rule record_hex_fresh)
next
  assume "hx \<notin> set hist"
  then show "length (record_hex hist hx) \<le> 12" by (simp add: record_hex_fresh)
next
  assume a: "distinct xs \<and> length xs = 13"
  then obtain x ys where xs: "xs = x # ys" and ys: "length ys = 12"
    by (cases xs) auto
  have "foldl record_hex [] xs = take 12 (rev xs)"
    using a by (simp add: foldl_record_hex_distinct)
  also have "\<dots> = rev ys" using ys by (simp add: xs)
  finally show "foldl record_hex [] xs = rev (tl xs)" by (simp add: xs)
  then show "length (foldl record_hex [] xs) = 12" using ys by (simp add: xs)
qed

theorem record_hex_bounded_dedup_witness:
  "record_hex [''#000001'', ''#000000''] ''#000000'' = [''#000001'', ''#000000''] \<and>
   record_hex [''#000001'', ''#000000''] ''#000002'' = [''#000002'', ''#000001'', ''#000000''] \<and>
   foldl record_hex []
     [''#00'', ''#01'', ''#02'', ''#03'', ''#04'', ''#05'', ''#06'', ''#07'', ''#08'', ''#09'',
      ''#0a'', ''#0b'', ''#0c'']
   = [''#0c'', ''#0b'', ''#0a'', ''#09'', ''#08'', ''#07'', ''#06'', ''#05'', ''#04'', ''#03'',
      ''#02'', ''#01'']"
  using record_hex_bounded_dedup [of "''#000000''" "[''#000001'', ''#000000'']" "[]"]
    record_hex_bounded_dedup [of "''#000002''" "[''#000001'', ''#000000'']"
      "[''#00'', ''#01'', ''#02'', ''#03'', ''#04'', ''#05'', ''#06'', ''#07'', ''#08'', ''#09'',
        ''#0a'', ''#0b'', ''#0c'']"]
  by simp

section \<open>The hex field\<close>

text \<open>
  Claim C1. For channels \<open>r\<close>, \<open>g\<close>, \<open>b\<close> between 0 and 255 the converter returns a
  colour whose \<open>hex\<close> field is \<open>#\<close> followed by the three channels, each written with
  exactly two lowercase hexadecimal digits: seven characters in all. Decoding the field
  the way the swatch buttons do, with \<^verbatim>\<open>parseInt\<close> on the slices 1 to 3, 3 to 5 and
  5 to 7, gives \<open>r\<close>, \<open>g\<close> and \<open>b\<close> back.
\<close>

theorem hex_field_roundtrip:
  assumes "0 \<le> r" "r \<le> 255" "0 \<le> g" "g \<le> 255" "0 \<le> b" "b \<le> 255"
  shows "\<exists>cd. calculateColorDetails r g b = Some cd \<and>
           hex cd = ''#'' @ toHex r @ toHex g @ toHex b \<and>
           length (toHex r) = 2 \<and> length (toHex g) = 2 \<and> length (toHex b) = 2 \<and>
           length (hex cd) = 7 \<and> hd (hex cd) = CHR ''#'' \<and>
           set (tl (hex cd)) \<subseteq> set ''0123456789abcdef'' \<and>
           parseInt16 (slice_str 1 3 (hex cd)) = Some r \<and>
           parseInt16 (slice_str 3 5 (hex cd)) = Some g \<and>
           parseInt16 (slice_str 5 7 (hex cd)) = Some b"
proof -
  obtain cd where cd: "calculateColorDetails r g b = Some cd" and hx: "hex cd = hex_of r g b"
    using calculateColorDetails_total[OF assms] by force
  note len = toHex_chars(1)[OF assms(1,2)] toHex_chars(1)[OF assms(3,4)]
    toHex_chars(1)[OF assms(5,6)]
  note chars = toHex_chars(2)[OF assms(1,2)] toHex_chars(2)[OF assms(3,4)]
    toHex_chars(2)[OF assms(5,6)]
  note sl = hex_of_slices[OF len]
  have "set (tl (hex cd)) \<subseteq> set ''0123456789abcdef''"
    using chars unfolding hx hex_of_def by auto
  moreover have "hex cd = ''#'' @ toHex r @ toHex g @ toHex b" "hd (hex cd) = CHR ''#''"
    by (simp_all add: hx hex_of_def)
  moreover have "parseInt16 (slice_str 1 3 (hex cd)) = Some r"
    "parseInt16 (slice_str 3 5 (hex cd)) = Some g" "parseInt16 (slice_str 5 7 (hex cd)) = Some b"
    unfolding hx sl using assms by (simp_all add: parseInt16_toHex)
  moreover have "length (hex cd) = 7" unfolding hx by (rule sl)
  ultimately show ?thesis using cd len by blast
qed

theorem hex_field_roundtrip_witness:
  "(0::int) \<le> 99 \<and> (99::int) \<le> 255 \<and> (0::int) \<le> 102 \<and> (102::int) \<le> 255 \<and>
   (0::int) \<le> 241 \<and> (241::int) \<le> 255 \<and>
   (\<exists>cd. calculateColorDetails 99 102 241 = Some cd \<and>
      hex cd = ''#'' @ toHex 99 @ toHex 102 @ toHex 241 \<and>
      length (toHex 99) = 2 \<and> length (toHex 102) = 2 \<and> length (toHex 241) = 2 \<and>
      length (hex cd) = 7 \<and> hd (hex cd) = CHR ''#'' \<and>
      set (tl (hex cd)) \<subseteq> set ''0123456789abcdef'' \<and>
      parseInt16 (slice_str 1 3 (hex cd)) = Some 99 \<and>
      parseInt16 (slice_str 3 5 (hex cd)) = Some 102 \<and>
      parseInt16 (slice_str 5 7 (hex cd)) = Some 241)"
  using hex_field_roundtrip [of 99 102 241] by simp

section \<open>The range of the HSL field\<close>

text \<open>
  The hue of a colour whose largest channel is red and whose green is below its blue is
  \<open>(g - b) / d + 6\<close> sixths of a turn: just below a full turn when \<open>b - g\<close> is small.
  \<^verbatim>\<open>Math.round(h * 360)\<close> is then 360, as for the pixel \<open>(255, 0, 1)\<close>, whose hue is
  359.76 degrees before rounding.
\<close>

theorem hue_360_counterexample:
  "calculateColorDetails 255 0 1 =
     Some \<lparr> hex = ''#ff0001'', rgb = (255, 0, 1), hsl = (360, 100, 50),
            cmyk = ''0, 100, 100, 0'' \<rparr>"
  by (simp add: eval_defs cong: eval_congs)

text \<open>
  Claim C3, as the code has it. For channels between 0 and 255 the converter returns a
  colour whose hue is an integer from 0 to 360, both included, and whose saturation and
  lightness are integers from 0 to 100.
\<close>

theorem hsl_field_ranges:
  assumes "0 \<le> r" "r \<le> 255" "0 \<le> g" "g \<le> 255" "0 \<le> b" "b \<le> 255"
  shows "\<exists>cd h s l. calculateColorDetails r g b = Some cd \<and> hsl cd = (h, s, l) \<and>
           0 \<le> h \<and> h \<le> 360 \<and> 0 \<le> s \<and> s \<le> 100 \<and> 0 \<le> l \<and> l \<le> 100"
  using calculateColorDetails_total[OF assms] by force

theorem hsl_field_ranges_witness:
  "(0::int) \<le> 255 \<and> (0::int) \<le> 1 \<and> (1::int) \<le> 255 \<and>
   (\<exists>cd h s l. calculateColorDetails 255 0 1 = Some cd \<and> hsl cd = (h, s, l) \<and>
           0 \<le> h \<and> h \<le> 360 \<and> 0 \<le> s \<and> s \<le> 100 \<and> 0 \<le> l \<and> l \<le> 100)"
  using hsl_field_ranges [of 255 0 1] by simp

section \<open>The CMYK field\<close>

lemma fdiv_255_mono: "c \<le> c' \<Longrightarrow> fdiv (of_int c) 255 \<le> fdiv (of_int c') 255"
  unfolding fdiv_def by (intro fl_mono) (simp add: divide_right_mono)

lemma Math_max3_channels:
  "Math_max3 (fdiv (of_int r) 255) (fdiv (of_int g) 255) (fdiv (of_int b) 255)
     = fdiv (of_int (max r (max g b))) 255"
proof -
  have m: "max (fdiv (of_int x) 255) (fdiv (of_int y) 255) = fdiv (of_int (max x y)) 255" for x y
    using fdiv_255_mono[of x y] fdiv_255_mono[of y x] by (cases "x \<le> y") (simp_all add: max_def)
  show ?thesis by (simp add: Math_max3_def m max.assoc)
qed

lemma or_zero_eq:
  assumes "0 \<le> n" "n \<le> fsub 1 k"
  shows "or_zero n (fsub 1 k) = Some (if k = 1 then 0 else fdiv n (fsub 1 k))"
proof -
  have z: "fsub 1 k = 0 \<longleftrightarrow> k = 1" by (auto simp: fsub_def)
  show ?thesis
  proof (cases "k = 1")
    case True
    then have "n = 0" using assms z by simp
    then show ?thesis using True z by (simp add: or_zero_def)
  next
    case False
    then show ?thesis using z by (simp add: or_zero_def)
  qed
qed

lemma cmyk_of_eq:
  assumes "0 \<le> r'" "r' \<le> 1" "0 \<le> g'" "g' \<le> 1" "0 \<le> b'" "b' \<le> 1"
  defines "k \<equiv> fsub 1 (Math_max3 r' g' b')"
  shows "cmyk_of r' g' b' =
           Some (if k = 1 then 0 else fdiv (fsub (fsub 1 r') k) (fsub 1 k),
                 if k = 1 then 0 else fdiv (fsub (fsub 1 g') k) (fsub 1 k),
                 if k = 1 then 0 else fdiv (fsub (fsub 1 b') k) (fsub 1 k), k)"
proof -
  define mx where "mx = Math_max3 r' g' b'"
  have mxb: "r' \<le> mx" "g' \<le> mx" "b' \<le> mx"
    by (simp_all add: mx_def Math_max3_def)
  have chan: "or_zero (fsub (fsub 1 x) k) (fsub 1 k)
                = Some (if k = 1 then 0 else fdiv (fsub (fsub 1 x) k) (fsub 1 k))"
    if "0 \<le> x" "x \<le> mx" for x
  proof (rule or_zero_eq)
    have "k \<le> fsub 1 x" unfolding k_def mx_def[symmetric] using that by (intro fsub_mono) simp
    then show "0 \<le> fsub (fsub 1 x) k" by (rule fsub_nonneg)
    have "fsub 1 x \<le> 1" unfolding fsub_def using that by (intro fl_le_1) simp
    then show "fsub (fsub 1 x) k \<le> fsub 1 k" by (intro fsub_mono) simp
  qed
  show ?thesis
    unfolding cmyk_of_def Let_def k_def[symmetric]
    by (simp only: chan[OF assms(1) mxb(1)] chan[OF assms(3) mxb(2)] chan[OF assms(5) mxb(3)])
       simp
qed

text \<open>
  Claim C7. For channels between 0 and 255 the \<open>cmyk\<close> field is the four numbers
  \<open>C, M, Y, K\<close> joined by a comma and a space, where \<open>K\<close> is \<open>1 - max(r, g, b) / 255\<close> and
  \<open>C\<close>, \<open>M\<close>, \<open>Y\<close> are \<open>(1 - channel - K) / (1 - K)\<close>, or 0 when \<open>K = 1\<close>, each times 100
  and rounded. No division by zero is left, all four are integers from 0 to 100, and black
  gives \<open>0, 0, 0, 100\<close>.
\<close>

theorem cmyk_field:
  assumes "0 \<le> r" "r \<le> 255" "0 \<le> g" "g \<le> 255" "0 \<le> b" "b \<le> 255"
  shows "\<exists>cd c m y k.
           calculateColorDetails r g b = Some cd \<and>
           cmyk cd = toString 10 c @ '', '' @ toString 10 m @ '', '' @ toString 10 y @ '', ''
                     @ toString 10 k \<and>
           c = percent (spec_CMY r (spec_K r g b)) \<and> m = percent (spec_CMY g (spec_K r g b)) \<and>
           y = percent (spec_CMY b (spec_K r g b)) \<and> k = percent (spec_K r g b) \<and>
           0 \<le> c \<and> c \<le> 100 \<and> 0 \<le> m \<and> m \<le> 100 \<and> 0 \<le> y \<and> y \<le> 100 \<and>
           0 \<le> k \<and> k \<le> 100 \<and>
           map_option cmyk (calculateColorDetails 0 0 0) = Some ''0, 0, 0, 100''"
proof -
  define r' where "r' = fdiv (of_int r) 255"
  define g' where "g' = fdiv (of_int g) 255"
  define b' where "b' = fdiv (of_int b) 255"
  define K where "K = spec_K r g b"
  have u: "0 \<le> r'" "r' \<le> 1" "0 \<le> g'" "g' \<le> 1" "0 \<le> b'" "b' \<le> 1"
    using assms by (simp_all add: r'_def g'_def b'_def channel_unit)
  have K: "fsub 1 (Math_max3 r' g' b') = K"
    by (simp add: K_def spec_K_def r'_def g'_def b'_def Math_max3_channels)
  have cm: "cmyk_of r' g' b' = Some (spec_CMY r K, spec_CMY g K, spec_CMY b K, K)"
    unfolding spec_CMY_def r'_def[symmetric] g'_def[symmetric] b'_def[symmetric]
    using cmyk_of_eq[OF u] unfolding K .
  obtain c m y k where b: "cmyk_of r' g' b' = Some (c, m, y, k)"
    "0 \<le> c" "c \<le> 1" "0 \<le> m" "m \<le> 1" "0 \<le> y" "y \<le> 1" "0 \<le> k" "k \<le> 1"
    using cmyk_of_total[OF u] by blast
  have eqs: "c = spec_CMY r K" "m = spec_CMY g K" "y = spec_CMY b K" "k = K"
    using b(1) cm by auto
  obtain h s l where hsl: "hsl_of r' g' b' = Some (h, s, l)"
    using hsl_of_total[OF u] by blast
  define cd where "cd =
     \<lparr> hex = hex_of r g b, rgb = (r, g, b),
       hsl = (Math_round (fmul h 360), percent s, percent l),
       cmyk = toString 10 (percent c) @ '', '' @ toString 10 (percent m) @ '', ''
              @ toString 10 (percent y) @ '', '' @ toString 10 (percent k) \<rparr>"
  have "calculateColorDetails r g b = Some cd"
    by (simp add: calculateColorDetails_def Let_def r'_def[symmetric] g'_def[symmetric]
        b'_def[symmetric] hsl b(1) cd_def)
  moreover have "cmyk cd = toString 10 (percent c) @ '', '' @ toString 10 (percent m) @ '', ''
              @ toString 10 (percent y) @ '', '' @ toString 10 (percent k)"
    by (simp add: cd_def)
  moreover have "map_option cmyk (calculateColorDetails 0 0 0) = Some ''0, 0, 0, 100''"
    by (simp add: calculateColorDetails_black)
  ultimately show ?thesis
    using percent_bounds[OF b(2,3)] percent_bounds[OF b(4,5)] percent_bounds[OF b(6,7)]
      percent_bounds[OF b(8,9)]
    unfolding eqs K_def by blast
qed

theorem cmyk_field_witness:
  "(0::int) \<le> 99 \<and> (99::int) \<le> 255 \<and> (0::int) \<le> 102 \<and> (102::int) \<le> 255 \<and>
   (0::int) \<le> 241 \<and> (241::int) \<le> 255 \<and>
   (\<exists>cd c m y k.
           calculateColorDetails 99 102 241 = Some cd \<and>
           cmyk cd = toString 10 c @ '', '' @ toString 10 m @ '', '' @ toString 10 y @ '', ''
                     @ toString 10 k \<and>
           c = percent (spec_CMY 99 (spec_K 99 102 241)) \<and>
           m = percent (spec_CMY 102 (spec_K 99 102 241)) \<and>
           y = percent (spec_CMY 241 (spec_K 99 102 241)) \<and> k = percent (spec_K 99 102 241) \<and>
           0 \<le> c \<and> c \<le> 100 \<and> 0 \<le> m \<and> m \<le> 100 \<and> 0 \<le> y \<and> y \<le> 100 \<and>
           0 \<le> k \<and> k \<le> 100 \<and>
           map_option cmyk (calculateColorDetails 0 0 0) = Some ''0, 0, 0, 100'')"
  using cmyk_field [of 99 102 241] by simp

section \<open>Contrast of black and of white\<close>

lemma getL_0: "getL pw 0 = 0"
proof -
  have "fdiv (of_int 0) 255 \<le> lit (3928/100000)" by (simp add: fl_evals num_defs)
  moreover have "fdiv (fdiv (of_int 0) 255) (lit (1292/100)) = 0" by (simp add: fl_evals num_defs)
  ultimately show ?thesis by (simp add: getL_def Let_def)
qed

lemma getL_255: "pw 1 (lit (24/10)) = 1 \<Longrightarrow> getL pw 255 = 1"
proof -
  assume pw: "pw 1 (lit (24/10)) = 1"
  have 1: "\<not> fdiv (of_int 255) 255 \<le> lit (3928/100000)"
    by (simp add: fl_evals num_defs)
  have 2: "fdiv (fadd (fdiv (of_int 255) 255) (lit (55/1000))) (lit (1055/1000)) = 1"
    by (simp add: fl_evals num_defs)
  show ?thesis using 1 2 pw by (simp add: getL_def Let_def)
qed

lemma luminance_black: "luminance pw (0, 0, 0) = 0"
proof -
  have "fadd (fadd (fmul (lit (2126/10000)) 0) (fmul (lit (7152/10000)) 0))
             (fmul (lit (722/10000)) 0) = 0" by (simp add: fl_evals num_defs)
  then show ?thesis by (simp add: luminance_def getL_0)
qed

lemma luminance_white: "pw 1 (lit (24/10)) = 1 \<Longrightarrow> luminance pw (255, 255, 255) = 1"
proof -
  assume pw: "pw 1 (lit (24/10)) = 1"
  have "fadd (fadd (fmul (lit (2126/10000)) 1) (fmul (lit (7152/10000)) 1))
             (fmul (lit (722/10000)) 1) = 1" by (simp add: fl_evals num_defs)
  then show ?thesis using getL_255[of pw] pw by (simp add: luminance_def)
qed

text \<open>
  Claim C8. With \<open>L\<close> the relative luminance, the contrast against black is
  \<open>(L + 0.05) / 0.05\<close>, the contrast against white is \<open>1.05 / (L + 0.05)\<close>, both written
  with two decimals, and \<open>isDark\<close> is \<open>L < 0.5\<close>: these are the lines of \<open>contrast\<close>. On
  black the contrast against black is \<open>1.00\<close> and \<open>isDark\<close> holds. On white the contrast
  against white is \<open>1.00\<close> and \<open>isDark\<close> does not hold, for every \<^verbatim>\<open>Math.pow\<close> that gives
  \<open>pow(1, 2.4) = 1\<close>, as IEEE 754 asks of it (the base \<open>(1 + 0.055) / 1.055\<close> is exactly 1).
\<close>

theorem contrast_black_white:
  "(rgb cd = (0, 0, 0) \<longrightarrow>
      contrast pw cd = Some \<lparr> ratio = ''1.00'', onWhite = ''21.00'', isDark = True \<rparr>) \<and>
   (rgb cd = (255, 255, 255) \<and> pw 1 (lit (24/10)) = 1 \<longrightarrow>
      contrast pw cd = Some \<lparr> ratio = ''21.00'', onWhite = ''1.00'', isDark = False \<rparr>)"
proof (intro conjI impI)
  assume "rgb cd = (0, 0, 0)"
  then have L: "luminance pw (rgb cd) = 0" by (simp add: luminance_black)
  have "(do { w \<leftarrow> fdiv_opt (lit (105/100)) (fadd 0 (lit (5/100)));
              Some \<lparr> ratio = toFixed2 (fdiv (fadd 0 (lit (5/100))) (lit (5/100))),
                     onWhite = toFixed2 w, isDark = (0 < lit (1/2)) \<rparr> })
        = Some \<lparr> ratio = ''1.00'', onWhite = ''21.00'', isDark = True \<rparr>"
    by (simp add: toFixed2_def padStart_def digit_char_def fl_evals num_defs cong: eval_congs)
  then show "contrast pw cd = Some \<lparr> ratio = ''1.00'', onWhite = ''21.00'', isDark = True \<rparr>"
    by (simp add: contrast_def Let_def L)
next
  assume a: "rgb cd = (255, 255, 255) \<and> pw 1 (lit (24/10)) = 1"
  then have L: "luminance pw (rgb cd) = 1" by (simp add: luminance_white)
  have "(do { w \<leftarrow> fdiv_opt (lit (105/100)) (fadd 1 (lit (5/100)));
              Some \<lparr> ratio = toFixed2 (fdiv (fadd 1 (lit (5/100))) (lit (5/100))),
                     onWhite = toFixed2 w, isDark = (1 < lit (1/2)) \<rparr> })
        = Some \<lparr> ratio = ''21.00'', onWhite = ''1.00'', isDark = False \<rparr>"
    by (simp add: toFixed2_def padStart_def digit_char_def fl_evals num_defs cong: eval_congs)
  then show "contrast pw cd = Some \<lparr> ratio = ''21.00'', onWhite = ''1.00'', isDark = False \<rparr>"
    by (simp add: contrast_def Let_def L)
qed

theorem contrast_black_white_witness:
  "contrast (\<lambda>x y. x)
     \<lparr> hex = ''#000000'', rgb = (0, 0, 0), hsl = (0, 0, 0), cmyk = ''0, 0, 0, 100'' \<rparr>
     = Some \<lparr> ratio = ''1.00'', onWhite = ''21.00'', isDark = True \<rparr> \<and>
   contrast (\<lambda>x y. x)
     \<lparr> hex = ''#ffffff'', rgb = (255, 255, 255), hsl = (0, 0, 100), cmyk = ''0, 0, 0, 0'' \<rparr>
     = Some \<lparr> ratio = ''21.00'', onWhite = ''1.00'', isDark = False \<rparr>"
  using contrast_black_white
      [of "\<lparr> hex = ''#000000'', rgb = (0, 0, 0), hsl = (0, 0, 0), cmyk = ''0, 0, 0, 100'' \<rparr>"
          "\<lambda>x y. x"]
    contrast_black_white
      [of "\<lparr> hex = ''#ffffff'', rgb = (255, 255, 255), hsl = (0, 0, 100), cmyk = ''0, 0, 0, 0'' \<rparr>"
          "\<lambda>x y. x"]
  by simp

section \<open>The session\<close>

lemma byte_range: "0 \<le> uint (w :: 8 word)" "uint (w :: 8 word) \<le> 255"
  using uint_lt2p[of w] by simp_all

lemma calculateColorDetails_rgb:
  "calculateColorDetails r g b = Some cd \<Longrightarrow> rgb cd = (r, g, b) \<and> hex cd = hex_of r g b"
  by (auto simp: calculateColorDetails_def Let_def split: Option.bind_splits)

lemma pixel_hex_total:
  "pixel_hex (d0, d1, d2, d3) = Some (hex_of (uint d0) (uint d1) (uint d2))"
proof -
  obtain cd where "calculateColorDetails (uint d0) (uint d1) (uint d2) = Some cd"
    using calculateColorDetails_total[of "uint d0" "uint d1" "uint d2"] byte_range by blast
  then show ?thesis using calculateColorDetails_rgb by (simp add: pixel_hex_def)
qed

lemma pixel_hex_byte_hex: "\<exists>hx. pixel_hex d = Some hx \<and> byte_hex hx"
proof -
  obtain d0 d1 d2 d3 where d: "d = (d0, d1, d2, d3)" by (cases d) auto
  show ?thesis unfolding d pixel_hex_total byte_hex_def using byte_range by blast
qed

lemma those_map_Some:
  "\<forall>x \<in> set xs. \<exists>y. f x = Some y \<and> P y \<Longrightarrow>
     \<exists>ys. those (map f xs) = Some ys \<and> length ys = length xs \<and> (\<forall>y \<in> set ys. P y)"
proof (induction xs)
  case Nil
  show ?case by simp
next
  case (Cons x xs)
  then obtain y where y: "f x = Some y" "P y" by auto
  from Cons obtain ys where ys: "those (map f xs) = Some ys" "length ys = length xs"
    "\<forall>y \<in> set ys. P y" by auto
  show ?case using y ys by simp
qed

lemma extractPalette_byte_hex:
  "\<exists>p. extractPalette bmp w h = Some p \<and> length p = 5 \<and> (\<forall>hx \<in> set p. byte_hex hx)"
proof -
  define f where "f = (\<lambda>(px, py).
      pixel_hex (getImageData bmp w h (fmul (of_nat w) px) (fmul (of_nat h) py)))"
  have "\<forall>x \<in> set points. \<exists>y. f x = Some y \<and> byte_hex y"
    using pixel_hex_byte_hex by (simp add: f_def split_def)
  from those_map_Some[OF this] obtain ys where ys: "those (map f points) = Some ys"
    "length ys = length points" "\<forall>y \<in> set ys. byte_hex y" by blast
  have "length points = 5" by (simp add: points_def)
  then show ?thesis
    using ys unfolding extractPalette_def f_def[symmetric] by simp
qed

lemma selectSwatch_byte_hex:
  assumes "byte_hex hx"
  shows "\<exists>cd r g b. selectSwatch hx st = Some (st\<lparr>colorData := cd\<rparr>) \<and>
           parseInt16 (slice_str 1 3 hx) = Some r \<and> parseInt16 (slice_str 3 5 hx) = Some g \<and>
           parseInt16 (slice_str 5 7 hx) = Some b \<and>
           calculateColorDetails r g b = Some cd \<and> hex cd = hx"
proof -
  from assms obtain r g b where rgb: "0 \<le> r" "r \<le> 255" "0 \<le> g" "g \<le> 255" "0 \<le> b" "b \<le> 255"
    and hx: "hx = hex_of r g b" unfolding byte_hex_def by blast
  obtain cd where cd: "calculateColorDetails r g b = Some cd"
    using calculateColorDetails_total[OF rgb] by blast
  have hc: "hex cd = hx" using calculateColorDetails_rgb[OF cd] hx by simp
  note sl = hex_of_slices[OF toHex_chars(1)[OF rgb(1,2)] toHex_chars(1)[OF rgb(3,4)]
      toHex_chars(1)[OF rgb(5,6)]]
  have p: "parseInt16 (slice_str 1 3 hx) = Some r" "parseInt16 (slice_str 3 5 hx) = Some g"
    "parseInt16 (slice_str 5 7 hx) = Some b"
    unfolding hx sl using rgb by (simp_all add: parseInt16_toHex)
  have "selectSwatch hx st = Some (st\<lparr>colorData := cd\<rparr>)"
    using cd p by (simp add: selectSwatch_def)
  then show ?thesis using cd hc p by blast
qed


lemma pickColor_total:
  "\<exists>cd. calculateColorDetails (uint d0) (uint d1) (uint d2) = Some cd \<and>
        hex cd = hex_of (uint d0) (uint d1) (uint d2) \<and>
        pickColor (d0, d1, d2, d3) st =
          Some (st\<lparr>colorData := cd, history := record_hex (history st) (hex cd)\<rparr>)"
proof -
  obtain cd where cd: "calculateColorDetails (uint d0) (uint d1) (uint d2) = Some cd"
    using calculateColorDetails_total[of "uint d0" "uint d1" "uint d2"] byte_range by blast
  then show ?thesis using calculateColorDetails_rgb[OF cd] by (simp add: pickColor_def)
qed

lemma set_record_hex: "set (record_hex hist hx) \<subseteq> insert hx (set hist)"
  by (auto simp: record_hex_def dest: in_set_takeD)

lemma handle_inv:
  assumes "inv st" "handle st e = Some st'"
  shows "inv st'"
proof (cases e)
  case (ImgOnLoad bmp w h)
  obtain p where p: "extractPalette bmp w h = Some p" "\<forall>hx \<in> set p. byte_hex hx"
    using extractPalette_byte_hex by blast
  then show ?thesis using assms ImgOnLoad by (auto simp: inv_def)
next
  case (ImgOnClick d)
  obtain d0 d1 d2 d3 where d: "d = (d0, d1, d2, d3)" by (cases d) auto
  obtain cd where cd: "hex cd = hex_of (uint d0) (uint d1) (uint d2)"
    "pickColor (d0, d1, d2, d3) st =
       Some (st\<lparr>colorData := cd, history := record_hex (history st) (hex cd)\<rparr>)"
    using pickColor_total by blast
  have "byte_hex (hex cd)" unfolding cd(1) byte_hex_def using byte_range by blast
  then show ?thesis
    using assms ImgOnClick d cd(2) set_record_hex[of "history st" "hex cd"]
    by (auto simp: inv_def)
next
  case (PaletteButton i)
  then show ?thesis
    using assms selectSwatch_byte_hex[of "palette st ! i" st]
    by (auto simp: inv_def split: if_splits)
next
  case (HistoryButton i)
  then show ?thesis
    using assms selectSwatch_byte_hex[of "history st ! i" st]
    by (auto simp: inv_def split: if_splits)
qed (use assms in \<open>auto simp: inv_def handleKeyDown_def updateFromHSL_def
      split: prod.splits if_splits\<close>)

lemma step_inv: "inv st \<Longrightarrow> step st e = Some st' \<Longrightarrow> inv st'"
  using handle_inv by (auto simp: step_def split: if_splits)

lemma reachable_inv: "reachable st \<Longrightarrow> inv st"
proof (induction rule: reachable.induct)
  case reach_start
  show ?case by (simp add: inv_def initial_def)
next
  case (reach_step st e st')
  then show ?case using step_inv by blast
qed

lemma handle_colorData:
  assumes "handle st e = Some st'"
  shows "colorData st' = colorData st \<or>
         (\<exists>r g b. calculateColorDetails r g b = Some (colorData st'))"
proof (cases e)
  case (ImgOnClick d)
  then show ?thesis using assms
    by (auto simp: pickColor_def split: prod.splits Option.bind_splits)
next
  case (PaletteButton i)
  then show ?thesis using assms
    by (auto simp: selectSwatch_def split: if_splits option.splits)
next
  case (HistoryButton i)
  then show ?thesis using assms
    by (auto simp: selectSwatch_def split: if_splits option.splits)
qed (use assms in \<open>auto simp: handleKeyDown_def updateFromHSL_def split: prod.splits if_splits\<close>)

lemma step_colorData:
  "step st e = Some st' \<Longrightarrow>
     colorData st' = colorData st \<or> (\<exists>r g b. calculateColorDetails r g b = Some (colorData st'))"
  using handle_colorData by (auto simp: step_def split: if_splits)

lemma handle_history:
  assumes "handle st e = Some st'"
  shows "history st' = history st \<or>
         (\<exists>d. e = ImgOnClick d \<and> hex (colorData st') \<notin> set (history st) \<and>
              history st' = take 12 (hex (colorData st') # history st))"
proof (cases e)
  case (ImgOnClick d)
  then show ?thesis using assms
    by (auto simp: pickColor_def record_hex_def split: prod.splits Option.bind_splits)
next
  case (PaletteButton i)
  then show ?thesis using assms
    by (auto simp: selectSwatch_def split: if_splits option.splits)
next
  case (HistoryButton i)
  then show ?thesis using assms
    by (auto simp: selectSwatch_def split: if_splits option.splits)
qed (use assms in \<open>auto simp: handleKeyDown_def updateFromHSL_def split: prod.splits if_splits\<close>)

lemma step_history:
  "step st e = Some st' \<Longrightarrow>
     history st' = history st \<or>
     (\<exists>d. e = ImgOnClick d \<and> hex (colorData st') \<notin> set (history st) \<and>
          history st' = take 12 (hex (colorData st') # history st))"
  using handle_history by (auto simp: step_def split: if_splits)

lemma pickColor_black:
  "pickColor (0, 0, 0, 255) st =
     Some (st\<lparr>colorData := \<lparr> hex = ''#000000'', rgb = (0, 0, 0), hsl = (0, 0, 0),
                               cmyk = ''0, 0, 0, 100'' \<rparr>,
               history := record_hex (history st) ''#000000''\<rparr>)"
  by (simp add: pickColor_def calculateColorDetails_black)

subsection \<open>Resets and the history\<close>

text \<open>
  None of the resets touches the history: the Escape key, \<open>Restart Project\<close> and
  \<open>Reset Project\<close> only call \<^verbatim>\<open>setImage(null)\<close>, and a new image only calls
  \<^verbatim>\<open>setImage\<close> and, once it is loaded, \<^verbatim>\<open>setPalette\<close>. After a pick of a black pixel
  the history is still \<open>#000000\<close> after each of them.
\<close>

theorem reset_history_counterexample:
  "map_option history
     (run initial [SetImage ''data:'', ImgOnClick (0, 0, 0, 255), KeyDown ''Escape''])
     = Some [''#000000''] \<and>
   map_option history
     (run initial [SetImage ''data:'', ImgOnClick (0, 0, 0, 255), RestartProject])
     = Some [''#000000''] \<and>
   map_option history
     (run initial [SetImage ''data:'', ImgOnClick (0, 0, 0, 255), ResetProject,
                   SetImage ''data:''])
     = Some [''#000000'']"
  by (simp add: pickColor_black step_def tool_event_def handleKeyDown_def truthy_def
      initial_def record_hex_def)

text \<open>
  Claim C5, as the code has it. A new image, which is \<^verbatim>\<open>setImage\<close> followed by the
  \<^verbatim>\<open>load\<close> event of the image, and each reset (Escape, \<open>Restart Project\<close>,
  \<open>Reset Project\<close>) leave the history as it is. The resets clear the image; the \<^verbatim>\<open>load\<close>
  event replaces the palette by the one extracted from the new image. The history changes
  only by a pick on the image of a hex it does not hold, which puts the hex in front and
  drops the entries beyond the twelfth.
\<close>

theorem session_start_keeps_history:
  "(e = SetImage url \<or> e = ImgOnLoad bmp w h \<or> e = KeyDown key \<or> e = RestartProject \<or>
    e = ResetProject \<longrightarrow>
      (\<exists>st'. step st e = Some st' \<and> history st' = history st)) \<and>
   (truthy (image_src st) \<and> (e = KeyDown ''Escape'' \<or> e = RestartProject \<or> e = ResetProject)
      \<longrightarrow> (\<exists>st'. step st e = Some st' \<and> image_src st' = None)) \<and>
   (truthy (image_src st) \<longrightarrow>
      (\<exists>st' p. step st (ImgOnLoad bmp w h) = Some st' \<and> extractPalette bmp w h = Some p \<and>
         palette st' = p \<and> history st' = history st)) \<and>
   (step st e = Some st' \<and> history st' \<noteq> history st \<longrightarrow>
      (\<exists>d. e = ImgOnClick d \<and> hex (colorData st') \<notin> set (history st) \<and>
           history st' = take 12 (hex (colorData st') # history st)))"
proof (intro conjI impI)
  obtain p where p: "extractPalette bmp w h = Some p"
    using extractPalette_byte_hex by blast
  assume "e = SetImage url \<or> e = ImgOnLoad bmp w h \<or> e = KeyDown key \<or> e = RestartProject \<or>
    e = ResetProject"
  then show "\<exists>st'. step st e = Some st' \<and> history st' = history st"
    using p by (auto simp: step_def tool_event_def handleKeyDown_def)
next
  assume "truthy (image_src st) \<and> (e = KeyDown ''Escape'' \<or> e = RestartProject \<or> e = ResetProject)"
  then show "\<exists>st'. step st e = Some st' \<and> image_src st' = None"
    by (auto simp: step_def tool_event_def handleKeyDown_def)
next
  obtain p where p: "extractPalette bmp w h = Some p"
    using extractPalette_byte_hex by blast
  assume "truthy (image_src st)"
  then show "\<exists>st' p. step st (ImgOnLoad bmp w h) = Some st' \<and> extractPalette bmp w h = Some p \<and>
         palette st' = p \<and> history st' = history st"
    using p by (simp add: step_def)
next
  assume "step st e = Some st' \<and> history st' \<noteq> history st"
  then show "\<exists>d. e = ImgOnClick d \<and> hex (colorData st') \<notin> set (history st) \<and>
           history st' = take 12 (hex (colorData st') # history st)"
    using step_history[of st e st'] by blast
qed

theorem session_start_keeps_history_witness:
  "(\<exists>st'. step \<lparr> image_src = Some ''data:'', colorData = initial_colorData, palette = [],
                    history = [''#000000''] \<rparr> RestartProject = Some st' \<and>
          history st' = [''#000000''] \<and> image_src st' = None) \<and>
   (\<exists>st' p. step \<lparr> image_src = Some ''data:'', colorData = initial_colorData, palette = [],
                      history = [''#000000''] \<rparr> (ImgOnLoad (\<lambda>x y. (1, 2, 3, 255)) 10 10)
                 = Some st' \<and>
             extractPalette (\<lambda>x y. (1, 2, 3, 255)) 10 10 = Some p \<and> palette st' = p \<and>
             history st' = [''#000000'']) \<and>
   history \<lparr> image_src = Some ''data:'',
             colorData = \<lparr> hex = ''#000000'', rgb = (0, 0, 0), hsl = (0, 0, 0),
                           cmyk = ''0, 0, 0, 100'' \<rparr>,
             palette = [], history = [''#000000''] \<rparr>
     = take 12 (''#000000'' # history initial)"
proof -
  define st0 where "st0 = \<lparr> image_src = Some ''data:'', colorData = initial_colorData,
    palette = [], history = [''#000000''] \<rparr>"
  define st1 where "st1 = initial\<lparr>image_src := Some ''data:''\<rparr>"
  define st2 where "st2 = \<lparr> image_src = Some ''data:'',
             colorData = \<lparr> hex = ''#000000'', rgb = (0, 0, 0), hsl = (0, 0, 0),
                           cmyk = ''0, 0, 0, 100'' \<rparr>,
             palette = [], history = [''#000000''] \<rparr>"
  have t: "truthy (image_src st0)" "history st0 = [''#000000'']"
    by (simp_all add: st0_def truthy_def)
  have s: "step st1 (ImgOnClick (0, 0, 0, 255)) = Some st2 \<and> history st2 \<noteq> history st1"
    by (simp add: pickColor_black step_def tool_event_def st1_def st2_def truthy_def
        initial_def record_hex_def)
  have h: "history st1 = history initial" "hex (colorData st2) = ''#000000''"
    by (simp_all add: st1_def st2_def)
  have 1: "\<exists>st'. step st0 RestartProject = Some st' \<and> history st' = [''#000000''] \<and>
      image_src st' = None"
    using session_start_keeps_history
      [where e = RestartProject and st = st0 and st' = st0] t
    by (auto simp: step_def tool_event_def)
  have 2: "\<exists>st' p. step st0 (ImgOnLoad (\<lambda>x y. (1, 2, 3, 255)) 10 10) = Some st' \<and>
      extractPalette (\<lambda>x y. (1, 2, 3, 255)) 10 10 = Some p \<and> palette st' = p \<and>
      history st' = [''#000000'']"
    using session_start_keeps_history
      [where e = RestartProject and st = st0 and st' = st0 and bmp = "\<lambda>x y. (1, 2, 3, 255)"
         and w = 10 and h = 10] t
    by simp
  have 3: "history st2 = take 12 (''#000000'' # history initial)"
    using session_start_keeps_history
      [where e = "ImgOnClick (0, 0, 0, 255)" and st = st1 and st' = st2] s h
    by auto
  show ?thesis using 1 2 3 unfolding st0_def st2_def by blast
qed

subsection \<open>Where the current colour comes from\<close>

text \<open>
  The initial colour is a literal. Its \<open>cmyk\<close> is \<open>60, 58, 0, 5\<close>, while the converter
  gives \<open>59, 58, 0, 5\<close> for its \<open>rgb\<close> (cyan is \<open>142 / 241\<close>, or 58.9 percent).
\<close>

theorem initial_colorData_counterexample:
  "colorData initial =
     \<lparr> hex = ''#6366f1'', rgb = (99, 102, 241), hsl = (239, 84, 67), cmyk = ''60, 58, 0, 5'' \<rparr> \<and>
   calculateColorDetails 99 102 241 =
     Some \<lparr> hex = ''#6366f1'', rgb = (99, 102, 241), hsl = (239, 84, 67),
            cmyk = ''59, 58, 0, 5'' \<rparr> \<and>
   calculateColorDetails 99 102 241 \<noteq> Some (colorData initial)"
  by (simp add: calculateColorDetails_default initial_def initial_colorData_def)

text \<open>
  Claim C9, as the code has it. In every state that the session reaches the current
  colour is the initial literal or the value that the converter returns for the colour's
  own \<open>rgb\<close>. The \<open>hex\<close>, \<open>rgb\<close> and \<open>hsl\<close> of the initial literal are those that the
  converter returns for \<open>(99, 102, 241)\<close>.
\<close>

theorem colorData_converter_output:
  "(reachable st \<longrightarrow>
      colorData st = initial_colorData \<or>
      (\<exists>r g b. rgb (colorData st) = (r, g, b) \<and>
               calculateColorDetails r g b = Some (colorData st))) \<and>
   map_option hex (calculateColorDetails 99 102 241) = Some (hex initial_colorData) \<and>
   map_option rgb (calculateColorDetails 99 102 241) = Some (rgb initial_colorData) \<and>
   map_option hsl (calculateColorDetails 99 102 241) = Some (hsl initial_colorData)"
proof (intro conjI impI)
  assume "reachable st"
  then show "colorData st = initial_colorData \<or>
      (\<exists>r g b. rgb (colorData st) = (r, g, b) \<and>
               calculateColorDetails r g b = Some (colorData st))"
  proof (induction rule: reachable.induct)
    case reach_start
    show ?case by (simp add: initial_def)
  next
    case (reach_step st e st')
    from step_colorData[OF reach_step.hyps(2)] show ?case
    proof
      assume "colorData st' = colorData st"
      then show ?thesis using reach_step.IH by simp
    next
      assume "\<exists>r g b. calculateColorDetails r g b = Some (colorData st')"
      then obtain r g b where c: "calculateColorDetails r g b = Some (colorData st')" by blast
      then show ?thesis using calculateColorDetails_rgb[OF c] by blast
    qed
  qed
qed (simp_all add: calculateColorDetails_default initial_colorData_def)

theorem colorData_converter_output_witness:
  "reachable
     \<lparr> image_src = Some ''data:'',
       colorData = \<lparr> hex = ''#000000'', rgb = (0, 0, 0), hsl = (0, 0, 0),
                     cmyk = ''0, 0, 0, 100'' \<rparr>,
       palette = [], history = [''#000000''] \<rparr> \<and>
   calculateColorDetails 0 0 0 =
     Some \<lparr> hex = ''#000000'', rgb = (0, 0, 0), hsl = (0, 0, 0), cmyk = ''0, 0, 0, 100'' \<rparr>"
proof -
  define st1 where "st1 = initial\<lparr>image_src := Some ''data:''\<rparr>"
  define st2 where "st2 = \<lparr> image_src = Some ''data:'',
       colorData = \<lparr> hex = ''#000000'', rgb = (0, 0, 0), hsl = (0, 0, 0),
                     cmyk = ''0, 0, 0, 100'' \<rparr>,
       palette = [], history = [''#000000''] \<rparr>"
  have "step initial (SetImage ''data:'') = Some st1"
    by (simp add: step_def tool_event_def st1_def)
  then have r1: "reachable st1" using reach_start reach_step by blast
  have "step st1 (ImgOnClick (0, 0, 0, 255)) = Some st2"
    by (simp add: pickColor_black step_def tool_event_def st1_def st2_def truthy_def
        initial_def record_hex_def)
  then have r2: "reachable st2" using r1 reach_step by blast
  have ne: "colorData st2 \<noteq> initial_colorData"
    by (simp add: st2_def initial_colorData_def)
  show ?thesis
    using colorData_converter_output [of st2] r2 ne unfolding st2_def by auto
qed

section \<open>The palette\<close>

lemma fl_seven_eighths: "fl (of_int n * 7 / 8) = of_int n * 7 / 8" if "\<bar>n\<bar> < 2 ^ 31"
proof -
  have "\<bar>n * 7\<bar> \<le> 2 ^ 53" using that by (simp add: abs_mult)
  from fl_repr[OF this, of "- 3"] show ?thesis by (simp add: power_int_minus field_simps)
qed

lemma lit_point:
  assumes "0 \<le> c" "c \<le> 7 / 8"
  shows "0 \<le> lit c" and "lit c \<le> 7 / 8"
proof -
  show "0 \<le> lit c" unfolding lit_def using assms by (intro fl_ge_0)
  have "fl c \<le> fl (of_int 1 * 7 / 8)" using assms by (intro fl_mono) simp
  then show "lit c \<le> 7 / 8" unfolding lit_def using fl_seven_eighths[of 1] by simp
qed

lemma points_bounds:
  "\<forall>(px, py) \<in> set points. 0 \<le> px \<and> px \<le> 7 / 8 \<and> 0 \<le> py \<and> py \<le> 7 / 8"
proof -
  have "0 \<le> lit (2/10) \<and> lit (2/10) \<le> 7 / 8" "0 \<le> lit (5/10) \<and> lit (5/10) \<le> 7 / 8"
    "0 \<le> lit (8/10) \<and> lit (8/10) \<le> 7 / 8" "0 \<le> lit (3/10) \<and> lit (3/10) \<le> 7 / 8"
    "0 \<le> lit (7/10) \<and> lit (7/10) \<le> 7 / 8"
    by (intro conjI lit_point; simp)+
  then show ?thesis unfolding points_def by simp
qed

lemma sample_in_bounds:
  assumes "0 < n" "n < 2 ^ 31" "0 \<le> q" "q \<le> 7 / 8"
  shows "ToInt32 (fmul (of_nat n) q) = \<lfloor>fmul (of_nat n) q\<rfloor>"
    and "0 \<le> \<lfloor>fmul (of_nat n) q\<rfloor>" and "\<lfloor>fmul (of_nat n) q\<rfloor> < int n"
proof -
  define x where "x = fmul (of_nat n) q"
  have n31: "\<bar>int n\<bar> < 2 ^ 31" using assms(2) by simp
  have x0: "0 \<le> x" unfolding x_def fmul_def using assms by (intro fl_ge_0) simp
  have "of_nat n * q \<le> of_int (int n) * 7 / 8"
    using assms by (simp add: mult_left_mono)
  then have "x \<le> fl (of_int (int n) * 7 / 8)" unfolding x_def fmul_def by (rule fl_mono)
  then have x1: "x \<le> of_int (int n) * 7 / 8" using fl_seven_eighths[OF n31] by simp
  have "of_int (int n) * 7 / 8 < (of_int (int n) :: rat)" using assms(1) by simp
  then have "x < of_int (int n)" using x1 by linarith
  then show lt: "\<lfloor>fmul (of_nat n) q\<rfloor> < int n" unfolding x_def[symmetric] by (simp add: floor_less_iff)
  show ge: "0 \<le> \<lfloor>fmul (of_nat n) q\<rfloor>" unfolding x_def[symmetric] using x0 by simp
  have "trunc x = \<lfloor>x\<rfloor>" using x0 by (simp add: trunc_def)
  moreover have "int n < 2 ^ 31" using assms(2) by simp
  then have "\<lfloor>x\<rfloor> < 2 ^ 31" using lt unfolding x_def by linarith
  ultimately show "ToInt32 (fmul (of_nat n) q) = \<lfloor>fmul (of_nat n) q\<rfloor>"
    using ge unfolding x_def[symmetric] ToInt32_def by simp
qed

lemma getImageData_in_bounds:
  assumes "0 < w" "w < 2 ^ 31" "0 < h" "h < 2 ^ 31"
    "0 \<le> px" "px \<le> 7 / 8" "0 \<le> py" "py \<le> 7 / 8"
  shows "getImageData bmp w h (fmul (of_nat w) px) (fmul (of_nat h) py)
           = bmp (nat \<lfloor>fmul (of_nat w) px\<rfloor>) (nat \<lfloor>fmul (of_nat h) py\<rfloor>)"
  using sample_in_bounds[OF assms(1,2,5,6)] sample_in_bounds[OF assms(3,4,7,8)]
  by (simp add: getImageData_def Let_def)

lemma those_map_Some_eq: "those (map (\<lambda>x. Some (f x)) xs) = Some (map f xs)"
  by (induction xs) simp_all

lemma pixel_hex_eq:
  "pixel_hex d = Some (case d of (d0, d1, d2, d3) \<Rightarrow> hex_of (uint d0) (uint d1) (uint d2))"
  by (cases d) (simp add: pixel_hex_total)

lemma extractPalette_eq:
  "extractPalette bmp w h =
     Some (map (\<lambda>(px, py).
                 case getImageData bmp w h (fmul (of_nat w) px) (fmul (of_nat h) py) of
                   (d0, d1, d2, d3) \<Rightarrow> hex_of (uint d0) (uint d1) (uint d2)) points)"
  unfolding extractPalette_def pixel_hex_eq
  using those_map_Some_eq[of "\<lambda>(px, py).
                 case getImageData bmp w h (fmul (of_nat w) px) (fmul (of_nat h) py) of
                   (d0, d1, d2, d3) \<Rightarrow> hex_of (uint d0) (uint d1) (uint d2)" points]
  by (simp add: split_def)

lemma extractPalette_uniform:
  assumes a: "0 < w \<and> w < 2 ^ 31 \<and> 0 < h \<and> h < 2 ^ 31 \<and>
    (\<forall>x < w. \<forall>y < h. bmp x y = (d0, d1, d2, d3))"
  shows "extractPalette bmp w h = Some (replicate 5 (hex_of (uint d0) (uint d1) (uint d2)))"
proof -
  have g: "getImageData bmp w h (fmul (of_nat w) px) (fmul (of_nat h) py) = (d0, d1, d2, d3)"
    if p: "(px, py) \<in> set points" for px py
  proof -
    have b: "0 \<le> px" "px \<le> 7 / 8" "0 \<le> py" "py \<le> 7 / 8" using p points_bounds by auto
    have "nat \<lfloor>fmul (of_nat w) px\<rfloor> < w" "nat \<lfloor>fmul (of_nat h) py\<rfloor> < h"
      using sample_in_bounds(2,3)[of w px] sample_in_bounds(2,3)[of h py] a b by linarith+
    then show ?thesis
      using a b getImageData_in_bounds[of w h px py bmp] by simp
  qed
  have "map (\<lambda>(px, py).
                 case getImageData bmp w h (fmul (of_nat w) px) (fmul (of_nat h) py) of
                   (d0, d1, d2, d3) \<Rightarrow> hex_of (uint d0) (uint d1) (uint d2)) points
        = map (\<lambda>p. hex_of (uint d0) (uint d1) (uint d2)) points"
    using g by (auto intro!: map_cong)
  also have "\<dots> = replicate 5 (hex_of (uint d0) (uint d1) (uint d2))"
    by (simp add: points_def numeral_eq_Suc)
  finally show ?thesis
    unfolding extractPalette_eq by simp
qed

text \<open>
  Claim C6. The palette has one hex for each of the five sample points \<open>(0.2, 0.2)\<close>,
  \<open>(0.5, 0.2)\<close>, \<open>(0.8, 0.5)\<close>, \<open>(0.3, 0.8)\<close>, \<open>(0.7, 0.7)\<close>, in this order and with
  repetitions kept, so its length is 5 for every canvas. For a width and a height that
  are positive and fit a \<^verbatim>\<open>long\<close>, the entry of the point \<open>(px, py)\<close> is the hex of the
  pixel in column \<open>\<lfloor>w * px\<rfloor>\<close> and row \<open>\<lfloor>h * py\<rfloor>\<close>, which lies inside the canvas; if
  all pixels are equal, every entry is the hex of that one colour.
\<close>

theorem extractPalette_one_per_point:
  "points = [(lit (2/10), lit (2/10)), (lit (5/10), lit (2/10)), (lit (8/10), lit (5/10)),
             (lit (3/10), lit (8/10)), (lit (7/10), lit (7/10))] \<and>
   (\<exists>p. extractPalette bmp w h = Some p \<and> length p = 5) \<and>
   (0 < w \<and> w < 2 ^ 31 \<and> 0 < h \<and> h < 2 ^ 31 \<longrightarrow>
      extractPalette bmp w h =
        Some (map (\<lambda>(px, py).
                case bmp (nat \<lfloor>fmul (of_nat w) px\<rfloor>) (nat \<lfloor>fmul (of_nat h) py\<rfloor>) of
                  (d0, d1, d2, d3) \<Rightarrow> hex_of (uint d0) (uint d1) (uint d2)) points) \<and>
      (\<forall>(px, py) \<in> set points.
          nat \<lfloor>fmul (of_nat w) px\<rfloor> < w \<and> nat \<lfloor>fmul (of_nat h) py\<rfloor> < h)) \<and>
   (0 < w \<and> w < 2 ^ 31 \<and> 0 < h \<and> h < 2 ^ 31 \<and> (\<forall>x < w. \<forall>y < h. bmp x y = (d0, d1, d2, d3)) \<longrightarrow>
      extractPalette bmp w h = Some (replicate 5 (hex_of (uint d0) (uint d1) (uint d2))))"
proof (intro conjI impI)
  show "points = [(lit (2/10), lit (2/10)), (lit (5/10), lit (2/10)), (lit (8/10), lit (5/10)),
             (lit (3/10), lit (8/10)), (lit (7/10), lit (7/10))]"
    by (simp add: points_def)
  show "\<exists>p. extractPalette bmp w h = Some p \<and> length p = 5"
    unfolding extractPalette_eq by (simp add: points_def)
next
  assume a: "0 < w \<and> w < 2 ^ 31 \<and> 0 < h \<and> h < 2 ^ 31"
  have g: "getImageData bmp w h (fmul (of_nat w) px) (fmul (of_nat h) py)
           = bmp (nat \<lfloor>fmul (of_nat w) px\<rfloor>) (nat \<lfloor>fmul (of_nat h) py\<rfloor>)"
    if "(px, py) \<in> set points" for px py
    using a that points_bounds by (intro getImageData_in_bounds) auto
  show "extractPalette bmp w h =
        Some (map (\<lambda>(px, py).
                case bmp (nat \<lfloor>fmul (of_nat w) px\<rfloor>) (nat \<lfloor>fmul (of_nat h) py\<rfloor>) of
                  (d0, d1, d2, d3) \<Rightarrow> hex_of (uint d0) (uint d1) (uint d2)) points)"
    unfolding extractPalette_eq using g by (auto intro!: map_cong)
  show "\<forall>(px, py) \<in> set points.
          nat \<lfloor>fmul (of_nat w) px\<rfloor> < w \<and> nat \<lfloor>fmul (of_nat h) py\<rfloor> < h"
  proof (clarify, intro conjI)
    fix px py assume p: "(px, py) \<in> set points"
    then have b: "0 \<le> px" "px \<le> 7 / 8" "0 \<le> py" "py \<le> 7 / 8" using points_bounds by auto
    show "nat \<lfloor>fmul (of_nat w) px\<rfloor> < w"
      using sample_in_bounds(2,3)[of w px] a b by linarith
    show "nat \<lfloor>fmul (of_nat h) py\<rfloor> < h"
      using sample_in_bounds(2,3)[of h py] a b by linarith
  qed
next
  assume "0 < w \<and> w < 2 ^ 31 \<and> 0 < h \<and> h < 2 ^ 31 \<and>
    (\<forall>x < w. \<forall>y < h. bmp x y = (d0, d1, d2, d3))"
  then show "extractPalette bmp w h = Some (replicate 5 (hex_of (uint d0) (uint d1) (uint d2)))"
    by (rule extractPalette_uniform)
qed


theorem extractPalette_one_per_point_witness:
  "extractPalette (\<lambda>x y. (1, 2, 3, 255)) 10 10
     = Some [''#010203'', ''#010203'', ''#010203'', ''#010203'', ''#010203''] \<and>
   extractPalette (\<lambda>x y. (of_nat x, of_nat y, 7, 255)) 10 10
     = Some [''#020207'', ''#050207'', ''#080507'', ''#030807'', ''#070707'']"
proof -
  have h: "(0::nat) < 10 \<and> (10::nat) < 2 ^ 31 \<and> (0::nat) < 10 \<and> (10::nat) < 2 ^ 31" by simp
  have u: "\<forall>x < (10::nat). \<forall>y < (10::nat). (\<lambda>x y. (1, 2, 3, 255) :: pixel) x y = (1, 2, 3, 255)"
    by simp
  have 1: "extractPalette (\<lambda>x y. (1, 2, 3, 255)) 10 10
     = Some (replicate 5 (hex_of (uint (1 :: 8 word)) (uint (2 :: 8 word)) (uint (3 :: 8 word))))"
    using extractPalette_one_per_point [of "\<lambda>x y. (1, 2, 3, 255)" 10 10 1 2 3 255] h u
    by blast
  have 2: "extractPalette (\<lambda>x y. (of_nat x, of_nat y, 7, 255)) 10 10 =
        Some (map (\<lambda>(px, py).
                case (\<lambda>x y. (of_nat x, of_nat y, 7, 255) :: pixel)
                       (nat \<lfloor>fmul (of_nat 10) px\<rfloor>) (nat \<lfloor>fmul (of_nat 10) py\<rfloor>) of
                  (d0, d1, d2, d3) \<Rightarrow> hex_of (uint d0) (uint d1) (uint d2)) points)"
    using extractPalette_one_per_point [of "\<lambda>x y. (of_nat x, of_nat y, 7, 255)" 10 10] h
    by blast
  have r5: "replicate 5 x = [x, x, x, x, x]" for x :: string
    by (simp add: numeral_eq_Suc)
  have hx: "hex_of (uint (1 :: 8 word)) (uint (2 :: 8 word)) (uint (3 :: 8 word)) = ''#010203''"
    by (simp add: hex_of_def toHex_def toString_def padStart_def digit_char_def)
  have fs: "\<lfloor>fmul 10 (lit (1/5))\<rfloor> = 2" "\<lfloor>fmul 10 (lit (1/2))\<rfloor> = 5"
    "\<lfloor>fmul 10 (lit (4/5))\<rfloor> = 8" "\<lfloor>fmul 10 (lit (3/10))\<rfloor> = 3"
    "\<lfloor>fmul 10 (lit (7/10))\<rfloor> = 7"
    by (simp_all add: fl_evals num_defs)
  have hs: "hex_of 2 2 7 = ''#020207''" "hex_of 5 2 7 = ''#050207''" "hex_of 8 5 7 = ''#080507''"
    "hex_of 3 8 7 = ''#030807''" "hex_of 7 7 7 = ''#070707''"
    by (simp_all add: hex_of_def toHex_def toString_def padStart_def digit_char_def)
  have p2: "map (\<lambda>(px, py).
                case (\<lambda>x y. (of_nat x, of_nat y, 7, 255) :: pixel)
                       (nat \<lfloor>fmul (of_nat 10) px\<rfloor>) (nat \<lfloor>fmul (of_nat 10) py\<rfloor>) of
                  (d0, d1, d2, d3) \<Rightarrow> hex_of (uint d0) (uint d1) (uint d2)) points
     = [''#020207'', ''#050207'', ''#080507'', ''#030807'', ''#070707'']"
    unfolding points_def by (simp add: fs hs)
  show ?thesis
    unfolding 1 2 p2 r5 hx by simp
qed

section \<open>Swatches\<close>

lemma step_swatch:
  assumes "reachable st" "truthy (image_src st)" "hx \<in> set (palette st) \<union> set (history st)"
  shows "\<exists>cd r g b. selectSwatch hx st = Some (st\<lparr>colorData := cd\<rparr>) \<and>
           parseInt16 (slice_str 1 3 hx) = Some r \<and> parseInt16 (slice_str 3 5 hx) = Some g \<and>
           parseInt16 (slice_str 5 7 hx) = Some b \<and>
           calculateColorDetails r g b = Some cd \<and> hex cd = hx"
  using reachable_inv[OF assms(1)] assms(3) selectSwatch_byte_hex[of hx st]
  unfolding inv_def by blast

text \<open>
  Claim C10. In a state that the session reaches, with the image shown, a click on a
  palette swatch or on a history swatch replaces the current colour by the value the
  converter returns for the three channels read from the swatch's hex; the hex of the new
  colour is the swatch's hex again, and the history, the palette and the image stay as
  they are. No event but a pick on the image changes the history, and a pick records the
  hex of the picked colour.
\<close>

theorem swatch_click_keeps_history:
  "(reachable st \<and> truthy (image_src st) \<and> i < length (palette st) \<longrightarrow>
      (\<exists>st' r g b. step st (PaletteButton i) = Some st' \<and>
         parseInt16 (slice_str 1 3 (palette st ! i)) = Some r \<and>
         parseInt16 (slice_str 3 5 (palette st ! i)) = Some g \<and>
         parseInt16 (slice_str 5 7 (palette st ! i)) = Some b \<and>
         calculateColorDetails r g b = Some (colorData st') \<and>
         hex (colorData st') = palette st ! i \<and>
         history st' = history st \<and> palette st' = palette st \<and>
         image_src st' = image_src st)) \<and>
   (reachable st \<and> truthy (image_src st) \<and> i < length (history st) \<longrightarrow>
      (\<exists>st' r g b. step st (HistoryButton i) = Some st' \<and>
         parseInt16 (slice_str 1 3 (history st ! i)) = Some r \<and>
         parseInt16 (slice_str 3 5 (history st ! i)) = Some g \<and>
         parseInt16 (slice_str 5 7 (history st ! i)) = Some b \<and>
         calculateColorDetails r g b = Some (colorData st') \<and>
         hex (colorData st') = history st ! i \<and>
         history st' = history st \<and> palette st' = palette st \<and>
         image_src st' = image_src st)) \<and>
   (step st e = Some st' \<and> (\<forall>d. e \<noteq> ImgOnClick d) \<longrightarrow> history st' = history st) \<and>
   (truthy (image_src st) \<longrightarrow>
      (\<exists>st'. step st (ImgOnClick d) = Some st' \<and>
             history st' = record_hex (history st) (hex (colorData st'))))"
proof (intro conjI impI)
  assume a: "reachable st \<and> truthy (image_src st) \<and> i < length (palette st)"
  then have "palette st ! i \<in> set (palette st) \<union> set (history st)" by simp
  from step_swatch[OF _ _ this] a obtain cd r g b where
    s: "selectSwatch (palette st ! i) st = Some (st\<lparr>colorData := cd\<rparr>)"
      "parseInt16 (slice_str 1 3 (palette st ! i)) = Some r"
      "parseInt16 (slice_str 3 5 (palette st ! i)) = Some g"
      "parseInt16 (slice_str 5 7 (palette st ! i)) = Some b"
      "calculateColorDetails r g b = Some cd" "hex cd = palette st ! i"
    by blast
  have "step st (PaletteButton i) = Some (st\<lparr>colorData := cd\<rparr>)"
    using a s(1) by (simp add: step_def)
  then show "\<exists>st' r g b. step st (PaletteButton i) = Some st' \<and>
         parseInt16 (slice_str 1 3 (palette st ! i)) = Some r \<and>
         parseInt16 (slice_str 3 5 (palette st ! i)) = Some g \<and>
         parseInt16 (slice_str 5 7 (palette st ! i)) = Some b \<and>
         calculateColorDetails r g b = Some (colorData st') \<and>
         hex (colorData st') = palette st ! i \<and>
         history st' = history st \<and> palette st' = palette st \<and>
         image_src st' = image_src st"
    using s by auto
next
  assume a: "reachable st \<and> truthy (image_src st) \<and> i < length (history st)"
  then have "history st ! i \<in> set (palette st) \<union> set (history st)" by simp
  from step_swatch[OF _ _ this] a obtain cd r g b where
    s: "selectSwatch (history st ! i) st = Some (st\<lparr>colorData := cd\<rparr>)"
      "parseInt16 (slice_str 1 3 (history st ! i)) = Some r"
      "parseInt16 (slice_str 3 5 (history st ! i)) = Some g"
      "parseInt16 (slice_str 5 7 (history st ! i)) = Some b"
      "calculateColorDetails r g b = Some cd" "hex cd = history st ! i"
    by blast
  have "step st (HistoryButton i) = Some (st\<lparr>colorData := cd\<rparr>)"
    using a s(1) by (simp add: step_def)
  then show "\<exists>st' r g b. step st (HistoryButton i) = Some st' \<and>
         parseInt16 (slice_str 1 3 (history st ! i)) = Some r \<and>
         parseInt16 (slice_str 3 5 (history st ! i)) = Some g \<and>
         parseInt16 (slice_str 5 7 (history st ! i)) = Some b \<and>
         calculateColorDetails r g b = Some (colorData st') \<and>
         hex (colorData st') = history st ! i \<and>
         history st' = history st \<and> palette st' = palette st \<and>
         image_src st' = image_src st"
    using s by auto
next
  assume "step st e = Some st' \<and> (\<forall>d. e \<noteq> ImgOnClick d)"
  then show "history st' = history st" using step_history[of st e st'] by blast
next
  assume t: "truthy (image_src st)"
  obtain d0 d1 d2 d3 where d: "d = (d0, d1, d2, d3)" by (cases d) auto
  obtain cd where "pickColor (d0, d1, d2, d3) st =
          Some (st\<lparr>colorData := cd, history := record_hex (history st) (hex cd)\<rparr>)"
    using pickColor_total by blast
  then show "\<exists>st'. step st (ImgOnClick d) = Some st' \<and>
             history st' = record_hex (history st) (hex (colorData st'))"
    using t d by (simp add: step_def)
qed

theorem swatch_click_keeps_history_witness:
  "(\<exists>st'. step \<lparr> image_src = Some ''data:'',
                   colorData = \<lparr> hex = ''#000000'', rgb = (0, 0, 0), hsl = (0, 0, 0),
                                 cmyk = ''0, 0, 0, 100'' \<rparr>,
                   palette = replicate 5 ''#000000'', history = [''#000000''] \<rparr>
               (HistoryButton 0) = Some st' \<and>
          hex (colorData st') = ''#000000'' \<and> history st' = [''#000000'']) \<and>
   (\<exists>st'. step \<lparr> image_src = Some ''data:'',
                   colorData = \<lparr> hex = ''#000000'', rgb = (0, 0, 0), hsl = (0, 0, 0),
                                 cmyk = ''0, 0, 0, 100'' \<rparr>,
                   palette = replicate 5 ''#000000'', history = [''#000000''] \<rparr>
               (PaletteButton 4) = Some st' \<and>
          hex (colorData st') = ''#000000'' \<and> history st' = [''#000000'']) \<and>
   (\<exists>st'. step \<lparr> image_src = Some ''data:'',
                   colorData = \<lparr> hex = ''#000000'', rgb = (0, 0, 0), hsl = (0, 0, 0),
                                 cmyk = ''0, 0, 0, 100'' \<rparr>,
                   palette = replicate 5 ''#000000'', history = [''#000000''] \<rparr>
               (ImgOnClick (0, 0, 0, 255)) = Some st' \<and>
          history st' = record_hex [''#000000''] (hex (colorData st')))"
proof -
  define st1 where "st1 = initial\<lparr>image_src := Some ''data:''\<rparr>"
  define st2 where "st2 = \<lparr> image_src = Some ''data:'',
       colorData = \<lparr> hex = ''#000000'', rgb = (0, 0, 0), hsl = (0, 0, 0),
                     cmyk = ''0, 0, 0, 100'' \<rparr>,
       palette = [], history = [''#000000''] \<rparr>"
  define st3 where "st3 = \<lparr> image_src = Some ''data:'',
       colorData = \<lparr> hex = ''#000000'', rgb = (0, 0, 0), hsl = (0, 0, 0),
                     cmyk = ''0, 0, 0, 100'' \<rparr>,
       palette = replicate 5 ''#000000'', history = [''#000000''] \<rparr>"
  have "step initial (SetImage ''data:'') = Some st1"
    by (simp add: step_def tool_event_def st1_def)
  then have r1: "reachable st1" using reach_start reach_step by blast
  have "step st1 (ImgOnClick (0, 0, 0, 255)) = Some st2"
    by (simp add: pickColor_black step_def tool_event_def st1_def st2_def truthy_def
        initial_def record_hex_def)
  then have r2: "reachable st2" using r1 reach_step by blast
  have hx: "hex_of (uint (0 :: 8 word)) (uint (0 :: 8 word)) (uint (0 :: 8 word)) = ''#000000''"
    by (simp add: hex_of_def toHex_def toString_def padStart_def digit_char_def)
  have "extractPalette (\<lambda>x y. (0, 0, 0, 255)) 1 1 = Some (replicate 5 ''#000000'')"
    using extractPalette_uniform[of 1 1 "\<lambda>x y. (0, 0, 0, 255)" 0 0 0 255] unfolding hx by simp
  then have "step st2 (ImgOnLoad (\<lambda>x y. (0, 0, 0, 255)) 1 1) = Some st3"
    by (simp add: step_def tool_event_def st2_def st3_def truthy_def)
  then have r3: "reachable st3" using r2 reach_step by blast
  have t: "truthy (image_src st3)" "0 < length (history st3)" "history st3 ! 0 = ''#000000''"
    "history st3 = [''#000000'']" "4 < length (palette st3)" "palette st3 ! 4 = ''#000000''"
    by (simp_all add: st3_def truthy_def)
  show ?thesis
    using swatch_click_keeps_history [of st3 0 "HistoryButton 0" st3 "(0, 0, 0, 255)"]
      swatch_click_keeps_history [of st3 4 "HistoryButton 0" st3 "(0, 0, 0, 255)"] r3 t
    unfolding st3_def[symmetric] by auto
qed

section \<open>From HSL to RGB and back\<close>

subsection \<open>The wave reaches both extremes\<close>

lemma hsl_f_tri: "hsl_f h l' a n = fsub l' (fmul a (tri (fmod (fadd n (fdiv h 30)) 12)))"
  by (simp add: hsl_f_def tri_def Let_def)

lemma tri_range: "- 1 \<le> tri k" "tri k \<le> 1"
  by (simp_all add: tri_def Math_min3_def)

lemma tri_one: "4 \<le> k \<Longrightarrow> k \<le> 8 \<Longrightarrow> tri k = 1"
proof -
  assume a: "4 \<le> k" "k \<le> 8"
  have "1 \<le> fsub k 3" unfolding fsub_def using a by (intro fl_ge_1) simp
  moreover have "1 \<le> fsub 9 k" unfolding fsub_def using a by (intro fl_ge_1) simp
  ultimately show ?thesis by (simp add: tri_def Math_min3_def)
qed

lemma tri_minus_one: "k \<le> 2 \<or> 10 \<le> k \<Longrightarrow> tri k = - 1"
proof -
  assume a: "k \<le> 2 \<or> 10 \<le> k"
  have "fsub k 3 \<le> - 1 \<or> fsub 9 k \<le> - 1"
  proof (rule disjE[OF a])
    assume "k \<le> 2"
    then have "fl (k - 3) \<le> of_int (- 1)" by (intro fl_le_int) simp_all
    then show ?thesis by (simp add: fsub_def)
  next
    assume "10 \<le> k"
    then have "fl (9 - k) \<le> of_int (- 1)" by (intro fl_le_int) simp_all
    then show ?thesis by (simp add: fsub_def)
  qed
  then show ?thesis by (auto simp: tri_def Math_min3_def)
qed

lemma fmod_12:
  "0 \<le> y \<Longrightarrow> y < 12 \<Longrightarrow> fmod y 12 = y"
  "12 \<le> y \<Longrightarrow> y < 24 \<Longrightarrow> fmod y 12 = y - 12"
proof -
  assume a: "0 \<le> y" "y < 12"
  then have "\<lfloor>y / 12\<rfloor> = 0" by (intro floor_unique) simp_all
  then show "fmod y 12 = y" using a by (simp add: fmod_def trunc_def)
next
  assume a: "12 \<le> y" "y < 24"
  then have "\<lfloor>y / 12\<rfloor> = 1" by (intro floor_unique) simp_all
  then show "fmod y 12 = y - 12" using a by (simp add: fmod_def trunc_def)
qed

text \<open>the phase of channel \<open>n\<close> for the hue \<open>x = h / 30\<close>\<close>

lemma phase_bounds:
  assumes "of_int lo \<le> x" "x \<le> of_int hi" "\<bar>n + lo\<bar> \<le> 2 ^ 53" "\<bar>n + hi\<bar> \<le> 2 ^ 53"
  shows "of_int (n + lo) \<le> fadd (of_int n) x" "fadd (of_int n) x \<le> of_int (n + hi)"
proof -
  show "of_int (n + lo) \<le> fadd (of_int n) x"
    unfolding fadd_def by (rule fl_ge_int) (use assms in simp_all)
  show "fadd (of_int n) x \<le> of_int (n + hi)"
    unfolding fadd_def by (rule fl_le_int) (use assms in simp_all)
qed

lemma tri_extremes:
  assumes x: "0 \<le> x" "x \<le> 12" and rep: "fl x = x"
  shows "\<exists>n \<in> {0, 8, 4}. tri (fmod (fadd n x) 12) = 1"
    and "\<exists>n \<in> {0, 8, 4}. tri (fmod (fadd n x) 12) = - 1"
proof -
  have f0: "fadd 0 x = x" by (simp add: fadd_def rep)
  have k0: "tri (fmod (fadd 0 x) 12) = 1" if "4 \<le> x" "x \<le> 8"
    using that by (simp add: f0 fmod_12 tri_one)
  have k0m: "tri (fmod (fadd 0 x) 12) = - 1" if "x \<le> 2 \<or> 10 \<le> x"
  proof (cases "x = 12")
    case True
    show ?thesis unfolding f0 using True by (simp add: fmod_def trunc_def tri_minus_one)
  next
    case False
    then have "x < 12" using x by simp
    then show ?thesis using that x by (simp add: f0 fmod_12 tri_minus_one)
  qed
  have low: "tri (fmod y 12) = - 1" if "10 \<le> y" "y \<le> 14" for y
  proof (cases "y < 12")
    case True
    then show ?thesis using that by (simp add: fmod_12 tri_minus_one)
  next
    case False
    then show ?thesis using that by (simp add: fmod_12 tri_minus_one)
  qed
  have b4: "of_int (4 + lo) \<le> fadd 4 x \<and> fadd 4 x \<le> of_int (4 + hi)"
    if "of_int lo \<le> x" "x \<le> of_int hi" "\<bar>lo\<bar> \<le> 100" "\<bar>hi\<bar> \<le> 100" for lo hi
    using phase_bounds[of lo x hi 4] that by simp
  have b8: "of_int (8 + lo) \<le> fadd 8 x \<and> fadd 8 x \<le> of_int (8 + hi)"
    if "of_int lo \<le> x" "x \<le> of_int hi" "\<bar>lo\<bar> \<le> 100" "\<bar>hi\<bar> \<le> 100" for lo hi
    using phase_bounds[of lo x hi 8] that by simp
  consider "x \<le> 2" | "2 \<le> x" "x \<le> 4" | "4 \<le> x" "x \<le> 6" | "6 \<le> x" "x \<le> 8"
    | "8 \<le> x" "x \<le> 10" | "10 \<le> x" by linarith
  then have "(\<exists>n \<in> {0, 8, 4}. tri (fmod (fadd n x) 12) = 1) \<and>
             (\<exists>n \<in> {0, 8, 4}. tri (fmod (fadd n x) 12) = - 1)"
  proof cases
    case 1
    have "4 \<le> fadd 4 x \<and> fadd 4 x \<le> 6" using b4[of 0 2] 1 x by simp
    then have "tri (fmod (fadd 4 x) 12) = 1" by (simp add: fmod_12 tri_one)
    then show ?thesis using k0m 1 by auto
  next
    case 2
    have "6 \<le> fadd 4 x \<and> fadd 4 x \<le> 8" using b4[of 2 4] 2 by simp
    then have "tri (fmod (fadd 4 x) 12) = 1" by (simp add: fmod_12 tri_one)
    moreover have "10 \<le> fadd 8 x \<and> fadd 8 x \<le> 12" using b8[of 2 4] 2 by simp
    then have "tri (fmod (fadd 8 x) 12) = - 1" using low by simp
    ultimately show ?thesis by auto
  next
    case 3
    have "12 \<le> fadd 8 x \<and> fadd 8 x \<le> 14" using b8[of 4 6] 3 by simp
    then have "tri (fmod (fadd 8 x) 12) = - 1" using low by simp
    then show ?thesis using k0 3 by auto
  next
    case 4
    have "10 \<le> fadd 4 x \<and> fadd 4 x \<le> 12" using b4[of 6 8] 4 by simp
    then have "tri (fmod (fadd 4 x) 12) = - 1" using low by simp
    then show ?thesis using k0 4 by auto
  next
    case 5
    have "16 \<le> fadd 8 x \<and> fadd 8 x \<le> 18" using b8[of 8 10] 5 by simp
    then have "tri (fmod (fadd 8 x) 12) = 1" by (simp add: fmod_12 tri_one)
    moreover have "12 \<le> fadd 4 x \<and> fadd 4 x \<le> 14" using b4[of 8 10] 5 by simp
    then have "tri (fmod (fadd 4 x) 12) = - 1" using low by simp
    ultimately show ?thesis by auto
  next
    case 6
    have "18 \<le> fadd 8 x \<and> fadd 8 x \<le> 20" using b8[of 10 12] 6 x by simp
    then have "tri (fmod (fadd 8 x) 12) = 1" by (simp add: fmod_12 tri_one)
    then show ?thesis using k0m 6 by auto
  qed
  then show "\<exists>n \<in> {0, 8, 4}. tri (fmod (fadd n x) 12) = 1"
    and "\<exists>n \<in> {0, 8, 4}. tri (fmod (fadd n x) 12) = - 1" by blast+
qed

subsection \<open>Rounding errors on the way\<close>

lemma fl_err:
  assumes "\<bar>x\<bar> \<le> B"
  shows "x - B / 2 ^ 53 \<le> fl x" and "fl x \<le> x + B / 2 ^ 53"
proof -
  have "\<bar>fl x - x\<bar> \<le> \<bar>x\<bar> / 2 ^ 53" by (rule fl_rel_error)
  also have "\<dots> \<le> B / 2 ^ 53" using assms by (simp add: divide_right_mono)
  finally have "\<bar>fl x - x\<bar> \<le> B / 2 ^ 53" .
  then show "x - B / 2 ^ 53 \<le> fl x" and "fl x \<le> x + B / 2 ^ 53" by linarith+
qed

lemma fl_one_plus_half_ulp: "fl (1 + 1 / 2 ^ 53) = 1"
  by (simp add: fl_evals num_defs)

lemma Math_round_err: "x - 1 / 2 < of_int (Math_round x)" "of_int (Math_round x) \<le> x + 1 / 2"
  unfolding Math_round_def by linarith+

lemma lightness_core:
  assumes "0 \<le> s" "s \<le> 100" "0 \<le> l" "l \<le> 100"
  defines "l' \<equiv> fdiv (of_int l) 100"
  defines "a \<equiv> fmul (fdiv (of_int s) 100) (min l' (fsub 1 l'))"
  defines "cmax \<equiv> Math_round (fmul (fadd l' a) 255)"
  defines "cmin \<equiv> Math_round (fmul (fsub l' a) 255)"
  shows "0 \<le> cmin" and "cmin \<le> cmax" and "cmax \<le> 255"
    and "percent (fdiv (fadd (fdiv (of_int cmax) 255) (fdiv (of_int cmin) 255)) 2) = l"
proof -
  define e :: rat where "e = 1 / 2 ^ 53"
  define s' where "s' = fdiv (of_int s) 100"
  define m1 where "m1 = fsub 1 l'"
  define fhi where "fhi = fadd l' a"
  define flo where "flo = fsub l' a"
  define Xhi where "Xhi = fmul fhi 255"
  define Xlo where "Xlo = fmul flo 255"
  define mx where "mx = fdiv (of_int cmax) 255"
  define mn where "mn = fdiv (of_int cmin) 255"
  define sm where "sm = fadd mx mn"
  define lo where "lo = fdiv sm 2"
  define Y where "Y = fmul lo 100"
  have e: "e = 1 / 9007199254740992" by (simp add: e_def)
  \<comment> \<open>the normalised inputs\<close>
  have s'b: "0 \<le> s'" "s' \<le> 1"
    unfolding s'_def fdiv_def using assms(1,2) by (auto intro!: fl_ge_0 fl_le_1)
  have l'b: "0 \<le> l'" "l' \<le> 1"
    unfolding l'_def fdiv_def using assms(3,4) by (auto intro!: fl_ge_0 fl_le_1)
  have "\<bar>of_int l / 100 :: rat\<bar> \<le> 1" using assms(3,4) by simp
  from fl_err[OF this] have l'e: "of_int l / 100 - e \<le> l'" "l' \<le> of_int l / 100 + e"
    by (simp_all add: l'_def fdiv_def e_def)
  have l'r: "fl l' = l'" by (simp add: l'_def fdiv_def)
  have "\<bar>1 - l'\<bar> \<le> 1" using l'b by simp
  from fl_err[OF this] have m1e: "m1 \<le> 1 - l' + e"
    by (simp add: m1_def fsub_def e_def)
  have m1b: "0 \<le> m1" unfolding m1_def using l'b by (intro fsub_nonneg)
  have m1r: "fl m1 = m1" by (simp add: m1_def fsub_def)
  \<comment> \<open>the chroma\<close>
  define q where "q = min l' m1"
  have qb: "0 \<le> q" "q \<le> l'" "q \<le> m1" "fl q = q"
    using l'b m1b l'r m1r by (auto simp: q_def min_def)
  have a_eq: "a = fl (s' * q)" by (simp add: a_def s'_def q_def m1_def fmul_def)
  have "s' * q \<le> q" using s'b qb(1) by (simp add: mult_left_le_one_le)
  then have "a \<le> fl q" unfolding a_eq by (rule fl_mono)
  then have aq: "a \<le> q" by (simp add: qb)
  have a0: "0 \<le> a" unfolding a_eq using s'b qb by (intro fl_ge_0) simp
  \<comment> \<open>the largest and the smallest channel before scaling\<close>
  have "\<bar>l' + a\<bar> \<le> 2" using l'b a0 aq qb by simp
  from fl_err[OF this] have fhie: "l' + a - 2 * e \<le> fhi" "fhi \<le> l' + a + 2 * e"
    by (simp_all add: fhi_def fadd_def e_def)
  have "\<bar>l' - a\<bar> \<le> 1" using l'b a0 aq qb by simp
  from fl_err[OF this] have floe: "l' - a - e \<le> flo" "flo \<le> l' - a + e"
    by (simp_all add: flo_def fsub_def e_def)
  have flo0: "0 \<le> flo" unfolding flo_def using aq qb by (intro fsub_nonneg) simp
  have "l' + a \<le> 1 + 1 / 2 ^ 53" using aq qb(3) m1e by (simp add: e_def)
  then have "fhi \<le> fl (1 + 1 / 2 ^ 53)" unfolding fhi_def fadd_def by (rule fl_mono)
  then have fhi1: "fhi \<le> 1" by (simp only: fl_one_plus_half_ulp)
  have "l' - a \<le> l' + a" using a0 by simp
  then have flohi: "flo \<le> fhi" unfolding flo_def fhi_def fsub_def fadd_def by (rule fl_mono)
  \<comment> \<open>the channels\<close>
  have "\<bar>fhi * 255\<bar> \<le> 255" using flo0 flohi fhi1 by simp
  from fl_err[OF this] have Xhie: "fhi * 255 - 255 * e \<le> Xhi" "Xhi \<le> fhi * 255 + 255 * e"
    by (simp_all add: Xhi_def fmul_def e_def)
  have "\<bar>flo * 255\<bar> \<le> 255" using flo0 flohi fhi1 by simp
  from fl_err[OF this] have Xloe: "flo * 255 - 255 * e \<le> Xlo" "Xlo \<le> flo * 255 + 255 * e"
    by (simp_all add: Xlo_def fmul_def e_def)
  have Xlo0: "0 \<le> Xlo" unfolding Xlo_def fmul_def using flo0 by (intro fl_ge_0) simp
  have Xhi255: "Xhi \<le> 255" unfolding Xhi_def fmul_def using fhi1
    by (intro fl_le_numeral) simp_all
  have Xlohi: "Xlo \<le> Xhi" unfolding Xlo_def Xhi_def fmul_def using flohi
    by (intro fl_mono) simp
  have cmax_eq: "cmax = Math_round Xhi" by (simp add: cmax_def Xhi_def fhi_def)
  have cmin_eq: "cmin = Math_round Xlo" by (simp add: cmin_def Xlo_def flo_def)
  show c0: "0 \<le> cmin" unfolding cmin_eq using Math_round_bounds[of 0 Xlo 255] Xlo0 Xlohi Xhi255
    by simp
  show cc: "cmin \<le> cmax" unfolding cmin_eq cmax_eq using Xlohi by (rule Math_round_mono)
  show c255: "cmax \<le> 255" unfolding cmax_eq using Math_round_bounds[of 0 Xhi 255] Xlo0 Xlohi Xhi255
    by simp
  note cmaxe = Math_round_err[of Xhi, folded cmax_eq]
  note cmine = Math_round_err[of Xlo, folded cmin_eq]
  \<comment> \<open>back through the converter\<close>
  have cb: "0 \<le> (of_int cmax :: rat)" "(of_int cmax :: rat) \<le> 255"
    "0 \<le> (of_int cmin :: rat)" "(of_int cmin :: rat) \<le> 255"
    using c0 cc c255 by simp_all
  have "\<bar>of_int cmax / 255 :: rat\<bar> \<le> 1" using cb by simp
  from fl_err[OF this] have mxe: "of_int cmax / 255 - e \<le> mx" "mx \<le> of_int cmax / 255 + e"
    by (simp_all add: mx_def fdiv_def e_def)
  have "\<bar>of_int cmin / 255 :: rat\<bar> \<le> 1" using cb by simp
  from fl_err[OF this] have mne: "of_int cmin / 255 - e \<le> mn" "mn \<le> of_int cmin / 255 + e"
    by (simp_all add: mn_def fdiv_def e_def)
  have mxb: "0 \<le> mx" "mx \<le> 1" "0 \<le> mn" "mn \<le> 1"
    using channel_unit[of cmax] channel_unit[of cmin] c0 cc c255 by (simp_all add: mx_def mn_def)
  have "\<bar>mx + mn\<bar> \<le> 2" using mxb by simp
  from fl_err[OF this] have sme: "mx + mn - 2 * e \<le> sm" "sm \<le> mx + mn + 2 * e"
    by (simp_all add: sm_def fadd_def e_def)
  have smb: "0 \<le> sm" "sm \<le> 2"
    using fadd_bounds[of 0 mx mn 2] mxb by (simp_all add: sm_def)
  have "\<bar>sm / 2\<bar> \<le> 1" using smb by simp
  from fl_err[OF this] have loe: "sm / 2 - e \<le> lo" "lo \<le> sm / 2 + e"
    by (simp_all add: lo_def fdiv_def e_def)
  have lob: "0 \<le> lo" "lo \<le> 1"
    unfolding lo_def fdiv_def using smb by (auto intro!: fl_ge_0 fl_le_1)
  have "\<bar>lo * 100\<bar> \<le> 100" using lob by simp
  from fl_err[OF this] have Ye: "lo * 100 - 100 * e \<le> Y" "Y \<le> lo * 100 + 100 * e"
    by (simp_all add: Y_def fmul_def e_def)
  have "of_int l - 1 / 2 \<le> Y"
    using l'e fhie floe Xhie Xloe cmaxe cmine mxe mne sme loe Ye unfolding e by linarith
  moreover have "Y < of_int l + 1 / 2"
    using l'e fhie floe Xhie Xloe cmaxe cmine mxe mne sme loe Ye unfolding e by linarith
  ultimately have "Math_round Y = l"
    unfolding Math_round_def by (intro floor_unique) simp_all
  then show "percent (fdiv (fadd (fdiv (of_int cmax) 255) (fdiv (of_int cmin) 255)) 2) = l"
    by (simp add: percent_def Y_def lo_def sm_def mx_def mn_def)
qed

subsection \<open>The largest and the smallest channel\<close>

lemma fdiv_255_min: 
  "Math_min3 (fdiv (of_int r) 255) (fdiv (of_int g) 255) (fdiv (of_int b) 255)
     = fdiv (of_int (min r (min g b))) 255"
proof -
  have m: "min (fdiv (of_int x) 255) (fdiv (of_int y) 255) = fdiv (of_int (min x y)) 255" for x y
    using fdiv_255_mono[of x y] fdiv_255_mono[of y x] by (cases "x \<le> y") (simp_all add: min_def)
  show ?thesis by (simp add: Math_min3_def m min.assoc)
qed

lemma hsl_of_lightness:
  "hsl_of r' g' b' = Some (h, s, lv)
    \<Longrightarrow> lv = fdiv (fadd (Math_max3 r' g' b') (Math_min3 r' g' b')) 2"
  by (auto simp: hsl_of_def Let_def split: if_splits Option.bind_splits)

lemma calculateColorDetails_lightness:
  assumes "calculateColorDetails r g b = Some cd"
  shows "snd (snd (hsl cd))
    = percent (fdiv (fadd (fdiv (of_int (max r (max g b))) 255)
                          (fdiv (of_int (min r (min g b))) 255)) 2)"
proof -
  from assms obtain h s lv where
    h: "hsl_of (fdiv (of_int r) 255) (fdiv (of_int g) 255) (fdiv (of_int b) 255) = Some (h, s, lv)"
    and l: "snd (snd (hsl cd)) = percent lv"
    by (auto simp: calculateColorDetails_def Let_def split: Option.bind_splits)
  show ?thesis
    unfolding l hsl_of_lightness[OF h] Math_max3_channels fdiv_255_min ..
qed

lemma hslToRgb_extremes:
  fixes h s l :: int
  assumes "0 \<le> h" "h \<le> 360"
  defines "l' \<equiv> fdiv (of_int l) 100"
  defines "a \<equiv> fmul (fdiv (of_int s) 100) (min l' (fsub 1 l'))"
  assumes a0: "0 \<le> a"
  shows "\<exists>r g b. hslToRgb h s l = (r, g, b) \<and>
           max r (max g b) = Math_round (fmul (fadd l' a) 255) \<and>
           min r (min g b) = Math_round (fmul (fsub l' a) 255)"
proof -
  define x where "x = fdiv (of_int h) 30"
  define C where "C n = Math_round (fmul (fsub l' (fmul a (tri (fmod (fadd n x) 12)))) 255)" for n
  define cmax where "cmax = Math_round (fmul (fadd l' a) 255)"
  define cmin where "cmin = Math_round (fmul (fsub l' a) 255)"
  have xb: "0 \<le> x" "x \<le> 12" "fl x = x"
  proof -
    show "0 \<le> x" unfolding x_def fdiv_def using assms(1) by (intro fl_ge_0) simp
    show "x \<le> 12" unfolding x_def fdiv_def using assms(2) by (intro fl_le_numeral) simp_all
    show "fl x = x" by (simp add: x_def fdiv_def)
  qed
  have ar: "fl a = a" by (simp add: a_def fmul_def)
  have ar': "fl (- a) = - a" by (simp add: fl_minus ar)
  have rgb: "hslToRgb h s l = (C 0, C 8, C 4)"
    by (simp add: hslToRgb_def Let_def hsl_f_tri C_def x_def l'_def a_def)
  have rng: "cmin \<le> C n \<and> C n \<le> cmax" for n
  proof -
    define t where "t = tri (fmod (fadd n x) 12)"
    have tb: "- 1 \<le> t" "t \<le> 1" by (simp_all add: t_def tri_range)
    have "a * t \<le> a" using a0 tb by (simp add: mult_left_le)
    then have "fl (a * t) \<le> fl a" by (rule fl_mono)
    then have u1: "fmul a t \<le> a" by (simp add: fmul_def ar)
    have "- a \<le> a * t" using a0 tb
      by (metis mult.right_neutral mult_left_mono mult_minus_right)
    then have "fl (- a) \<le> fl (a * t)" by (rule fl_mono)
    then have u2: "- a \<le> fmul a t" by (simp add: fmul_def ar')
    have "fl (l' - a) \<le> fl (l' - fmul a t)" using u1 by (intro fl_mono) simp
    then have f1: "fsub l' a \<le> fsub l' (fmul a t)" by (simp add: fsub_def)
    have "fl (l' - fmul a t) \<le> fl (l' + a)" using u2 by (intro fl_mono) simp
    then have f2: "fsub l' (fmul a t) \<le> fadd l' a" by (simp add: fsub_def fadd_def)
    have "fmul (fsub l' a) 255 \<le> fmul (fsub l' (fmul a t)) 255"
      using f1 unfolding fmul_def by (intro fl_mono) simp
    moreover have "fmul (fsub l' (fmul a t)) 255 \<le> fmul (fadd l' a) 255"
      using f2 unfolding fmul_def by (intro fl_mono) simp
    ultimately show ?thesis
      unfolding C_def cmin_def cmax_def t_def[symmetric] by (simp add: Math_round_mono)
  qed
  have top: "C n = cmin" if "tri (fmod (fadd n x) 12) = 1" for n
    using that by (simp add: C_def cmin_def fmul_def ar)
  have bot: "C n = cmax" if "tri (fmod (fadd n x) 12) = - 1" for n
    using that by (simp add: C_def cmax_def fmul_def ar' fsub_def fadd_def)
  from tri_extremes(1)[OF xb] top have lowest: "C 0 = cmin \<or> C 8 = cmin \<or> C 4 = cmin"
    by auto
  from tri_extremes(2)[OF xb] bot have highest: "C 0 = cmax \<or> C 8 = cmax \<or> C 4 = cmax"
    by auto
  have "max (C 0) (max (C 8) (C 4)) = cmax"
    using highest rng[of 0] rng[of 8] rng[of 4] by (auto simp: max_def)
  moreover have "min (C 0) (min (C 8) (C 4)) = cmin"
    using lowest rng[of 0] rng[of 8] rng[of 4] by (auto simp: min_def)
  ultimately show ?thesis unfolding rgb cmax_def cmin_def by blast
qed

lemma chroma_nonneg:
  assumes "0 \<le> s" "0 \<le> l" "l \<le> 100"
  shows "0 \<le> fmul (fdiv (of_int s) 100) (min (fdiv (of_int l) 100) (fsub 1 (fdiv (of_int l) 100)))"
proof -
  have 1: "0 \<le> fdiv (of_int s) 100" unfolding fdiv_def using assms by (intro fl_ge_0) simp
  have 2: "0 \<le> fdiv (of_int l) 100" unfolding fdiv_def using assms by (intro fl_ge_0) simp
  have "fdiv (of_int l) 100 \<le> 1" unfolding fdiv_def using assms by (intro fl_le_1) simp
  then have 3: "0 \<le> fsub 1 (fdiv (of_int l) 100)" by (rule fsub_nonneg)
  show ?thesis unfolding fmul_def using 1 2 3 by (intro fl_ge_0) simp
qed

lemma hslToRgb_180_50_0: "hslToRgb 180 50 0 = (0, 0, 0)"
  unfolding hslToRgb_def hsl_f_def Let_def
  by (simp add: fmod_def trunc_def fl_evals num_defs)

lemma hslToRgb_100_50_2: "hslToRgb 100 50 2 = (4, 8, 3)"
  unfolding hslToRgb_def hsl_f_def Let_def
  by (simp add: fmod_def trunc_def fl_evals num_defs)

lemma calculateColorDetails_4_8_3:
  "calculateColorDetails 4 8 3 =
     Some \<lparr> hex = ''#040803'', rgb = (4, 8, 3), hsl = (108, 45, 2), cmyk = ''50, 0, 63, 97'' \<rparr>"
  by (simp add: eval_defs cong: eval_congs)

subsection \<open>The round trip\<close>

text \<open>
  With lightness 0 every hue and saturation give black, whose \<open>hsl\<close> is \<open>(0, 0, 0)\<close>. Away
  from the degenerate cases the 8-bit channels are too coarse near the ends of the
  lightness scale: \<open>(100, 50, 2)\<close> becomes the pixel \<open>(4, 8, 3)\<close>, whose \<open>hsl\<close> is
  \<open>(108, 45, 2)\<close>.
\<close>

theorem hsl_roundtrip_counterexample:
  "hslToRgb 180 50 0 = (0, 0, 0) \<and>
   map_option hsl (calculateColorDetails 0 0 0) = Some (0, 0, 0) \<and>
   hslToRgb 100 50 2 = (4, 8, 3) \<and>
   map_option hsl (calculateColorDetails 4 8 3) = Some (108, 45, 2)"
  by (simp add: hslToRgb_180_50_0 hslToRgb_100_50_2 calculateColorDetails_black
      calculateColorDetails_4_8_3)

text \<open>
  Claim C2, as the code has it. For a hue from 0 to 360 and a saturation and a lightness
  from 0 to 100, the channels computed by \<open>updateFromHSL\<close> lie between 0 and 255, the
  converter returns a colour for them, which becomes the current colour, and the lightness
  of that colour is the lightness that was put in. Hue and saturation are not promised.
\<close>

theorem hsl_roundtrip_lightness:
  assumes "0 \<le> h" "h \<le> 360" "0 \<le> s" "s \<le> 100" "0 \<le> l" "l \<le> 100"
  shows "\<exists>r g b cd h2 s2.
           hslToRgb h s l = (r, g, b) \<and>
           0 \<le> r \<and> r \<le> 255 \<and> 0 \<le> g \<and> g \<le> 255 \<and> 0 \<le> b \<and> b \<le> 255 \<and>
           calculateColorDetails r g b = Some cd \<and>
           updateFromHSL h s l st = Some (st\<lparr>colorData := cd\<rparr>) \<and>
           hsl cd = (h2, s2, l)"
proof -
  define l' where "l' = fdiv (of_int l) 100"
  define a where "a = fmul (fdiv (of_int s) 100) (min l' (fsub 1 l'))"
  define cmax where "cmax = Math_round (fmul (fadd l' a) 255)"
  define cmin where "cmin = Math_round (fmul (fsub l' a) 255)"
  have a0: "0 \<le> a" unfolding a_def l'_def using assms by (intro chroma_nonneg)
  have core: "0 \<le> cmin" "cmin \<le> cmax" "cmax \<le> 255"
    "percent (fdiv (fadd (fdiv (of_int cmax) 255) (fdiv (of_int cmin) 255)) 2) = l"
    using lightness_core[OF assms(3-6)] unfolding cmax_def cmin_def a_def l'_def by blast+
  obtain r g b where rgb: "hslToRgb h s l = (r, g, b)" "max r (max g b) = cmax"
    "min r (min g b) = cmin"
    using hslToRgb_extremes[OF assms(1,2), of s l] a0
    unfolding a_def l'_def cmax_def cmin_def by blast
  have rng: "0 \<le> r" "r \<le> 255" "0 \<le> g" "g \<le> 255" "0 \<le> b" "b \<le> 255"
    using rgb(2,3) core(1,3) by linarith+
  obtain cd where cd: "calculateColorDetails r g b = Some cd"
    using calculateColorDetails_total[OF rng] by blast
  have "snd (snd (hsl cd)) = l"
    unfolding calculateColorDetails_lightness[OF cd] rgb(2,3) by (rule core(4))
  then obtain h2 s2 where "hsl cd = (h2, s2, l)" by (cases "hsl cd") auto
  moreover have "updateFromHSL h s l st = Some (st\<lparr>colorData := cd\<rparr>)"
    by (simp add: updateFromHSL_def rgb(1) cd)
  ultimately show ?thesis using rgb(1) rng cd by blast
qed

theorem hsl_roundtrip_lightness_witness:
  "(0::int) \<le> 100 \<and> (100::int) \<le> 360 \<and> (0::int) \<le> 50 \<and> (50::int) \<le> 100 \<and>
   (0::int) \<le> 2 \<and> (2::int) \<le> 100 \<and>
   (\<exists>cd h2 s2. calculateColorDetails 4 8 3 = Some cd \<and>
      updateFromHSL 100 50 2 initial = Some (initial\<lparr>colorData := cd\<rparr>) \<and>
      hsl cd = (h2, s2, 2))"
  using hsl_roundtrip_lightness [of 100 50 2 initial] unfolding hslToRgb_100_50_2 by auto

end
